theory Spec2Isabelle
  imports Complex_Main "HOL-Library.AList" "HOL-Library.Log_Nat" "HOL-Library.Word"
begin

section \<open>Signaling server: the room registry and the relay handlers\<close>

text \<open>
  The server keeps one global \<^verbatim>\<open>rooms = new Map()\<close> from room id to an object
  \<^verbatim>\<open>{ sender, receiver }\<close>, each slot holding a socket id or \<^verbatim>\<open>null\<close>.
  A JavaScript \<^verbatim>\<open>Map\<close> has unique keys and iterates in insertion order, so the
  registry is an association list: \<^verbatim>\<open>rooms.get\<close> is \<open>map_of\<close>, \<^verbatim>\<open>rooms.set\<close> is
  \<open>AList.update\<close> (an existing key keeps its place, a new key goes to the end) and
  \<^verbatim>\<open>rooms.delete\<close> is \<open>AList.delete\<close>.

  A socket id is the string socket.io assigns to a connection; it is never empty, so a
  slot is truthy exactly when it is not \<^verbatim>\<open>null\<close>: \<^verbatim>\<open>if (room.sender)\<close> is
  \<open>sender room \<noteq> None\<close>.

  \<^verbatim>\<open>io.to(id).emit(event, data)\<close> is recorded as the pair \<open>(id, event)\<close> appended to
  the handler's list of emissions; \<^verbatim>\<open>socket.join\<close> and \<^verbatim>\<open>console.log\<close> have no
  effect on the registry and are left out.
\<close>

type_synonym conn_id = string
type_synonym room_id = string
type_synonym payload = string

record room =
  sender :: "conn_id option"
  receiver :: "conn_id option"

type_synonym registry = "(room_id \<times> room) list"

datatype server_event =
    ReceiverJoined
  | Offer payload
  | Answer payload
  | IceCandidate payload
  | PeerDisconnected

type_synonym emission = "conn_id \<times> server_event"

text \<open>\<^verbatim>\<open>socket.on("join-room", ({ roomId, isSender }) => ...)\<close>\<close>

definition join_room :: "conn_id \<Rightarrow> room_id \<Rightarrow> bool \<Rightarrow> registry \<Rightarrow> registry \<times> emission list" where
  "join_room socket_id roomId isSender rooms =
     (let rooms1 = (if map_of rooms roomId = None
                    then AList.update roomId \<lparr>sender = None, receiver = None\<rparr> rooms
                    else rooms)
      in case map_of rooms1 roomId of
           None \<Rightarrow> (rooms1, [])
         | Some room \<Rightarrow>
             if isSender then
               (AList.update roomId (room\<lparr>sender := Some socket_id\<rparr>) rooms1, [])
             else
               (let room' = room\<lparr>receiver := Some socket_id\<rparr>
                in (AList.update roomId room' rooms1,
                    (case sender room' of
                       Some s \<Rightarrow> [(s, ReceiverJoined)]
                     | None \<Rightarrow> []))))"

text \<open>\<^verbatim>\<open>socket.on("offer", ({ roomId, offer }) => ...)\<close>: forwarded to the room's receiver.\<close>

definition on_offer :: "conn_id \<Rightarrow> room_id \<Rightarrow> payload \<Rightarrow> registry \<Rightarrow> registry \<times> emission list" where
  "on_offer socket_id roomId offer rooms =
     (case map_of rooms roomId of
        None \<Rightarrow> (rooms, [])
      | Some room \<Rightarrow>
          (case receiver room of
             Some r \<Rightarrow> (rooms, [(r, Offer offer)])
           | None \<Rightarrow> (rooms, [])))"

text \<open>\<^verbatim>\<open>socket.on("answer", ({ roomId, answer }) => ...)\<close>: forwarded to the room's sender.\<close>

definition on_answer :: "conn_id \<Rightarrow> room_id \<Rightarrow> payload \<Rightarrow> registry \<Rightarrow> registry \<times> emission list" where
  "on_answer socket_id roomId answer rooms =
     (case map_of rooms roomId of
        None \<Rightarrow> (rooms, [])
      | Some room \<Rightarrow>
          (case sender room of
             Some s \<Rightarrow> (rooms, [(s, Answer answer)])
           | None \<Rightarrow> (rooms, [])))"

text \<open>
  \<^verbatim>\<open>socket.on("ice-candidate", ({ roomId, candidate }) => ...)\<close>:
  \<^verbatim>\<open>targetId = room.sender === socket.id ? room.receiver : room.sender\<close>.
\<close>

definition on_ice_candidate :: "conn_id \<Rightarrow> room_id \<Rightarrow> payload \<Rightarrow> registry \<Rightarrow> registry \<times> emission list" where
  "on_ice_candidate socket_id roomId candidate rooms =
     (case map_of rooms roomId of
        None \<Rightarrow> (rooms, [])
      | Some room \<Rightarrow>
          (let targetId = (if sender room = Some socket_id then receiver room else sender room)
           in case targetId of
                Some t \<Rightarrow> (rooms, [(t, IceCandidate candidate)])
              | None \<Rightarrow> (rooms, [])))"

text \<open>
  \<^verbatim>\<open>socket.on("disconnect", ...)\<close>: the body of the loop
  \<^verbatim>\<open>for (const [roomId, room] of rooms.entries())\<close>, applied to the registry and the
  emissions so far. The body changes the entry it is visiting and no other, so the loop
  is the fold of the body over the entries present when it starts.
\<close>

definition disconnect_room ::
    "conn_id \<Rightarrow> registry \<times> emission list \<Rightarrow> room_id \<times> room \<Rightarrow> registry \<times> emission list" where
  "disconnect_room socket_id acc entry =
     (let rooms = fst acc; out = snd acc; roomId = fst entry; room = snd entry
      in if sender room = Some socket_id \<or> receiver room = Some socket_id then
           (let targetId = (if sender room = Some socket_id then receiver room else sender room);
                out1 = (case targetId of
                          Some t \<Rightarrow> out @ [(t, PeerDisconnected)]
                        | None \<Rightarrow> out);
                room1 = (if sender room = Some socket_id then room\<lparr>sender := None\<rparr> else room);
                room2 = (if receiver room1 = Some socket_id then room1\<lparr>receiver := None\<rparr> else room1)
            in if sender room2 = None \<and> receiver room2 = None
               then (AList.delete roomId rooms, out1)
               else (AList.update roomId room2 rooms, out1))
         else (rooms, out))"

definition on_disconnect :: "conn_id \<Rightarrow> registry \<Rightarrow> registry \<times> emission list" where
  "on_disconnect socket_id rooms = foldl (disconnect_room socket_id) (rooms, []) rooms"

text \<open>The messages a client can send, and the server's dispatch on them.\<close>

datatype client_msg =
    JoinRoom room_id bool
  | OfferMsg room_id payload
  | AnswerMsg room_id payload
  | IceCandidateMsg room_id payload
  | Disconnect

fun on_message :: "conn_id \<Rightarrow> client_msg \<Rightarrow> registry \<Rightarrow> registry \<times> emission list" where
  "on_message c (JoinRoom roomId isSender) rooms = join_room c roomId isSender rooms"
| "on_message c (OfferMsg roomId offer) rooms = on_offer c roomId offer rooms"
| "on_message c (AnswerMsg roomId answer) rooms = on_answer c roomId answer rooms"
| "on_message c (IceCandidateMsg roomId candidate) rooms = on_ice_candidate c roomId candidate rooms"
| "on_message c Disconnect rooms = on_disconnect c rooms"

text \<open>
  The server handles one message at a time (Node's event loop); a run of the server on a
  sequence of messages returns the final registry and every emission, in order.
\<close>

fun serve :: "(conn_id \<times> client_msg) list \<Rightarrow> registry \<Rightarrow> registry \<times> emission list" where
  "serve [] rooms = (rooms, [])"
| "serve ((c, m) # ms) rooms =
     (let (rooms1, out1) = on_message c m rooms;
          (rooms2, out2) = serve ms rooms1
      in (rooms2, out1 @ out2))"

section \<open>Browser client: the transfer state of the \<^verbatim>\<open>useWebRTC\<close> hook\<close>

subsection \<open>JavaScript numbers\<close>

text \<open>
  A JavaScript number is an IEEE 754 double: a finite value, which is a rational, or one
  of \<^verbatim>\<open>Infinity\<close>, \<^verbatim>\<open>-Infinity\<close> and \<^verbatim>\<open>NaN\<close>. Byte counts and clock
  readings are integers below \<open>2^53\<close>, which doubles hold exactly, and so are their sums
  and differences. A quotient or a product is the exact result rounded to the nearest
  double, ties to the even mantissa; the sign of zero is not modelled (no expression of
  the code tells \<^verbatim>\<open>-0\<close> from \<^verbatim>\<open>0\<close>).

  \<open>round_ties_even\<close> rounds a rational to the nearest integer, a tie to the even one.
  \<open>rounded_pos x\<close> rounds a positive rational to 53 significant bits, or to a multiple
  of \<open>2^-1074\<close> (\<^verbatim>\<open>Number.MIN_VALUE\<close>) where that spacing is the wider one: with
  \<open>y = x * 2^1074\<close>, the number of bits of \<open>\<lfloor>y\<rfloor>\<close> beyond 53 is the number \<open>s\<close> of low
  bits the mantissa cannot hold. A result of \<open>2^1024\<close> or more is \<^verbatim>\<open>Infinity\<close>.
\<close>

datatype jsnum = Number rat | PosInf | NegInf | NaN

definition round_ties_even :: "rat \<Rightarrow> int" where
  "round_ties_even x =
     (let f = \<lfloor>x\<rfloor>; d = x - of_int f
      in if d < 1 / 2 then f
         else if 1 / 2 < d then f + 1
         else if even f then f else f + 1)"

definition min_value_inv :: rat where
  "min_value_inv = 2 ^ 1074"

definition rounded_pos :: "rat \<Rightarrow> rat" where
  "rounded_pos x =
     (let y = x * min_value_inv;
          s = floorlog 2 (nat \<lfloor>y\<rfloor>) - 53
      in of_int (round_ties_even (y / 2 ^ s)) * 2 ^ s / min_value_inv)"

definition to_double_pos :: "rat \<Rightarrow> jsnum" where
  "to_double_pos x = (if 2 ^ 1024 \<le> rounded_pos x then PosInf else Number (rounded_pos x))"

fun js_neg :: "jsnum \<Rightarrow> jsnum" where
  "js_neg (Number a) = Number (- a)"
| "js_neg PosInf = NegInf"
| "js_neg NegInf = PosInf"
| "js_neg NaN = NaN"

definition to_double :: "rat \<Rightarrow> jsnum" where
  "to_double x =
     (if x = 0 then Number 0
      else if 0 < x then to_double_pos x
      else js_neg (to_double_pos (- x)))"

text \<open>\<^verbatim>\<open>x / y\<close> and \<^verbatim>\<open>x * y\<close>\<close>

fun js_div :: "jsnum \<Rightarrow> jsnum \<Rightarrow> jsnum" where
  "js_div NaN y = NaN"
| "js_div x NaN = NaN"
| "js_div (Number a) (Number b) =
     (if b = 0 then (if a = 0 then NaN else if 0 < a then PosInf else NegInf)
      else to_double (a / b))"
| "js_div (Number a) PosInf = Number 0"
| "js_div (Number a) NegInf = Number 0"
| "js_div PosInf (Number b) = (if b < 0 then NegInf else PosInf)"
| "js_div NegInf (Number b) = (if b < 0 then PosInf else NegInf)"
| "js_div PosInf PosInf = NaN"
| "js_div PosInf NegInf = NaN"
| "js_div NegInf PosInf = NaN"
| "js_div NegInf NegInf = NaN"

fun js_mul :: "jsnum \<Rightarrow> jsnum \<Rightarrow> jsnum" where
  "js_mul NaN y = NaN"
| "js_mul x NaN = NaN"
| "js_mul (Number a) (Number b) = to_double (a * b)"
| "js_mul (Number a) PosInf = (if a = 0 then NaN else if 0 < a then PosInf else NegInf)"
| "js_mul (Number a) NegInf = (if a = 0 then NaN else if 0 < a then NegInf else PosInf)"
| "js_mul PosInf (Number b) = (if b = 0 then NaN else if 0 < b then PosInf else NegInf)"
| "js_mul NegInf (Number b) = (if b = 0 then NaN else if 0 < b then NegInf else PosInf)"
| "js_mul PosInf PosInf = PosInf"
| "js_mul PosInf NegInf = NegInf"
| "js_mul NegInf PosInf = NegInf"
| "js_mul NegInf NegInf = PosInf"

text \<open>\<^verbatim>\<open>x > y\<close> and \<^verbatim>\<open>x <= y\<close>; both are false when either side is \<^verbatim>\<open>NaN\<close>.\<close>

fun js_gt :: "jsnum \<Rightarrow> jsnum \<Rightarrow> bool" where
  "js_gt NaN y = False"
| "js_gt x NaN = False"
| "js_gt (Number a) (Number b) = (b < a)"
| "js_gt PosInf PosInf = False"
| "js_gt PosInf y = True"
| "js_gt x NegInf = (x \<noteq> NegInf)"
| "js_gt x PosInf = False"
| "js_gt NegInf y = False"

fun js_le :: "jsnum \<Rightarrow> jsnum \<Rightarrow> bool" where
  "js_le NaN y = False"
| "js_le x NaN = False"
| "js_le x y = (\<not> js_gt x y)"

text \<open>\<^verbatim>\<open>Math.ceil\<close>\<close>

fun js_ceil :: "jsnum \<Rightarrow> jsnum" where
  "js_ceil (Number a) = Number (of_int \<lceil>a\<rceil>)"
| "js_ceil x = x"

subsection \<open>Files, frames and the hook's state\<close>

text \<open>
  A \<^verbatim>\<open>File\<close> is its name, its MIME type and its bytes; \<^verbatim>\<open>file.size\<close> is the
  number of bytes. An \<^verbatim>\<open>ArrayBuffer\<close> is a list of bytes and \<^verbatim>\<open>byteLength\<close> its
  length.
\<close>

type_synonym byte = "8 word"
type_synonym bytes = "byte list"

record jsfile =
  file_name :: string
  file_type :: string
  file_bytes :: bytes

definition file_size :: "jsfile \<Rightarrow> nat" where
  "file_size f = length (file_bytes f)"

text \<open>\<^verbatim>\<open>const CHUNK_SIZE = 1024 * 1024\<close>\<close>

definition CHUNK_SIZE :: nat where
  "CHUNK_SIZE = 1024 * 1024"

text \<open>
  A message on the data channel is a string or an \<^verbatim>\<open>ArrayBuffer\<close>
  (\<^verbatim>\<open>binaryType = "arraybuffer"\<close>). A string is represented by what
  \<^verbatim>\<open>JSON.parse\<close> makes of it: \<open>None\<close> when it throws, otherwise the object, told
  apart by its \<^verbatim>\<open>type\<close> field. \<^verbatim>\<open>JSON.stringify\<close> of the sender's two objects
  parses back to them.
\<close>

datatype metadata =
    FileInfo string nat string
  | FileComplete
  | OtherMetadata

datatype frame =
    Text "metadata option"
  | Binary bytes

datatype ready_state = Connecting | Open | Closing | Closed

text \<open>
  What a handler does besides changing the hook's state: a toast (title, description), a
  message sent on the data channel, a message emitted to the signaling server, and the
  download that \<^verbatim>\<open>saveReceivedFile\<close> triggers (file name, MIME type, content of the
  \<^verbatim>\<open>Blob\<close>).
\<close>

datatype effect =
    Toast string string
  | Send frame
  | SocketEmit client_msg
  | Download string string bytes

text \<open>
  The \<^verbatim>\<open>useState\<close> values and the \<^verbatim>\<open>useRef\<close> cells of the hook.
  \<open>peerConnection\<close> records whether \<^verbatim>\<open>peerConnectionRef.current\<close> is set,
  \<open>dataChannel\<close> is \<open>None\<close> for a \<^verbatim>\<open>null\<close> \<^verbatim>\<open>dataChannelRef.current\<close> and
  otherwise the channel's \<^verbatim>\<open>readyState\<close>.
\<close>

record client =
  selectedFile :: "jsfile option"
  shareCode :: string
  progress :: jsnum
  estimatedTime :: jsnum
  status :: string
  isConnected :: bool
  peerConnection :: bool
  dataChannel :: "ready_state option"
  fileChunks :: "bytes list"
  receivedSize :: nat
  totalSize :: nat
  fileName :: string
  fileType :: string
  startTime :: int

definition initial_client :: client where
  "initial_client =
     \<lparr>selectedFile = None, shareCode = [], progress = Number 0, estimatedTime = Number 0,
      status = [], isConnected = False, peerConnection = False, dataChannel = None,
      fileChunks = [], receivedSize = 0, totalSize = 0, fileName = [], fileType = [],
      startTime = 0\<rparr>"

subsection \<open>Selecting a file and resetting\<close>

text \<open>
  \<^verbatim>\<open>handleFileSelect\<close>; \<open>files\<close> is \<^verbatim>\<open>e.target.files\<close>, empty when it is
  \<^verbatim>\<open>null\<close>.
\<close>

definition handleFileSelect :: "jsfile list \<Rightarrow> client \<Rightarrow> client \<times> effect list" where
  "handleFileSelect files c =
     (case files of
        [] \<Rightarrow> (c, [])
      | f # rest \<Rightarrow>
          if file_size f > 1024 * 1024 * 1024 then
            (c, [Toast ''File too large'' ''Maximum file size is 1GB''])
          else
            (c\<lparr>selectedFile := Some f, shareCode := [], progress := Number 0,
               estimatedTime := Number 0, status := [], isConnected := False,
               fileChunks := [], receivedSize := 0, totalSize := 0\<rparr>, []))"

definition resetConnection :: "client \<Rightarrow> client" where
  "resetConnection c =
     c\<lparr>selectedFile := None, shareCode := [], progress := Number 0,
       estimatedTime := Number 0, status := [], isConnected := False,
       dataChannel := None, peerConnection := False, fileChunks := [], receivedSize := 0,
       totalSize := 0, fileName := [], fileType := [], startTime := 0\<rparr>"

subsection \<open>Starting a connection\<close>

text \<open>
  \<^verbatim>\<open>initWebRTC\<close>, as far as it shows in the hook's state and in what is emitted: the
  new peer connection, for a sender the data channel it creates (whose \<^verbatim>\<open>readyState\<close>
  starts as \<^verbatim>\<open>"connecting"\<close>), and the \<^verbatim>\<open>join-room\<close> message to the signaling
  server, whose socket is set when the hook mounts. The listeners it registers are the
  handlers of the other subsections.
\<close>

definition initWebRTC :: "string \<Rightarrow> bool \<Rightarrow> client \<Rightarrow> client \<times> effect list" where
  "initWebRTC code isSender c =
     (if isSender then
        (c\<lparr>peerConnection := True, dataChannel := Some Connecting\<rparr>,
         [SocketEmit (JoinRoom code True)])
      else
        (c\<lparr>peerConnection := True\<rparr>, [SocketEmit (JoinRoom code False)]))"

text \<open>\<^verbatim>\<open>generateCode\<close>; \<open>code\<close> is the value \<^verbatim>\<open>nanoid(8)\<close> returns.\<close>

definition generateCode :: "string \<Rightarrow> client \<Rightarrow> client \<times> effect list" where
  "generateCode code c =
     (case selectedFile c of
        None \<Rightarrow> (c, [])
      | Some f \<Rightarrow> initWebRTC code True (c\<lparr>shareCode := code\<rparr>))"

definition connectWithCode :: "string \<Rightarrow> client \<Rightarrow> client \<times> effect list" where
  "connectWithCode code c =
     (if code = [] then (c, [])
      else initWebRTC code False (c\<lparr>status := ''Connecting...''\<rparr>))"

subsection \<open>Progress and time remaining\<close>

text \<open>\<^verbatim>\<open>(moved / total) * 100\<close>, the argument of \<^verbatim>\<open>setProgress\<close> on both sides.\<close>

definition percent :: "nat \<Rightarrow> nat \<Rightarrow> jsnum" where
  "percent moved totalBytes =
     js_mul (js_div (Number (of_nat moved)) (Number (of_nat totalBytes))) (Number 100)"

text \<open>
  The block under \<^verbatim>\<open>if (startTimeRef.current > 0)\<close>, the same on both sides up to
  the names of the byte counters; \<open>now\<close> is the value of \<^verbatim>\<open>Date.now()\<close>.
\<close>

definition remainingTime :: "int \<Rightarrow> int \<Rightarrow> nat \<Rightarrow> nat \<Rightarrow> jsnum" where
  "remainingTime start now moved totalBytes =
     (let elapsedTime = js_div (Number (of_int (now - start))) (Number 1000);
          bytesPerSecond = js_div (Number (of_nat moved)) elapsedTime;
          remainingBytes = Number (of_int (int totalBytes - int moved))
      in if js_gt bytesPerSecond (Number 0)
         then js_ceil (js_div remainingBytes bytesPerSecond)
         else Number 0)"



subsection \<open>Receiving\<close>

definition saveReceivedFile :: "client \<Rightarrow> client \<times> effect list" where
  "saveReceivedFile c =
     (c\<lparr>status := ''File received successfully!''\<rparr>,
      [Download (fileName c) (fileType c) (concat (fileChunks c)),
       Toast ''Transfer Complete'' ''File has been received successfully''])"

text \<open>\<^verbatim>\<open>handleDataChannelMessage\<close>, run at clock reading \<open>now\<close>.\<close>

definition handleDataChannelMessage :: "int \<Rightarrow> frame \<Rightarrow> client \<Rightarrow> client \<times> effect list" where
  "handleDataChannelMessage now data c =
     (case data of
        Text None \<Rightarrow> (c, [])
      | Text (Some (FileInfo name fsize ftype)) \<Rightarrow>
          (c\<lparr>fileChunks := [], receivedSize := 0, totalSize := fsize, fileName := name,
             fileType := ftype, status := ''Receiving: '' @ name, startTime := now\<rparr>, [])
      | Text (Some FileComplete) \<Rightarrow> saveReceivedFile c
      | Text (Some OtherMetadata) \<Rightarrow> (c, [])
      | Binary chunk \<Rightarrow>
          (let c1 = c\<lparr>fileChunks := fileChunks c @ [chunk],
                      receivedSize := receivedSize c + length chunk\<rparr>;
               c2 = c1\<lparr>progress := percent (receivedSize c1) (totalSize c1)\<rparr>
           in if startTime c2 > 0
              then (c2\<lparr>estimatedTime :=
                       remainingTime (startTime c2) now (receivedSize c2) (totalSize c2)\<rparr>, [])
              else (c2, [])))"

text \<open>
  The receiver handles the frames of the channel in the order they arrive; \<open>clock k\<close> is
  the value of \<^verbatim>\<open>Date.now()\<close> while the \<open>k\<close>-th frame is handled.
\<close>

fun receive_frames :: "(nat \<Rightarrow> int) \<Rightarrow> nat \<Rightarrow> frame list \<Rightarrow> client \<Rightarrow> client \<times> effect list" where
  "receive_frames clock k [] c = (c, [])"
| "receive_frames clock k (fr # frs) c =
     (let (c1, out1) = handleDataChannelMessage (clock k) fr c;
          (c2, out2) = receive_frames clock (Suc k) frs c1
      in (c2, out1 @ out2))"

subsection \<open>Sending\<close>

text \<open>\<^verbatim>\<open>file.slice(o, o + CHUNK_SIZE)\<close> read as an \<^verbatim>\<open>ArrayBuffer\<close>.\<close>

definition readSlice :: "jsfile \<Rightarrow> nat \<Rightarrow> bytes" where
  "readSlice f o' = take CHUNK_SIZE (drop o' (file_bytes f))"

text \<open>
  The first part of \<^verbatim>\<open>reader.onload\<close>: the new offset after the chunk \<open>result\<close>, and
  the progress and time remaining set from it.
\<close>

definition onload_update :: "jsfile \<Rightarrow> int \<Rightarrow> bytes \<Rightarrow> nat \<Rightarrow> client \<Rightarrow> nat \<times> client" where
  "onload_update f now result offset c =
     (let offset1 = offset + length result;
          c1 = c\<lparr>progress := percent offset1 (file_size f)\<rparr>
      in if startTime c1 > 0
         then (offset1, c1\<lparr>estimatedTime := remainingTime (startTime c1) now offset1 (file_size f)\<rparr>)
         else (offset1, c1))"

text \<open>
  \<^verbatim>\<open>readSlice(offset)\<close> followed by the \<^verbatim>\<open>reader.onload\<close> it triggers, which sends
  the chunk and either reads the next slice or sends \<^verbatim>\<open>file-complete\<close>. The callback
  returns at once when \<^verbatim>\<open>dataChannelRef.current\<close> is \<^verbatim>\<open>null\<close>; the result of a
  successful read is an \<^verbatim>\<open>ArrayBuffer\<close> object, which is truthy also when it is
  empty. \<open>clock k\<close> is the value of \<^verbatim>\<open>Date.now()\<close> in the \<open>k\<close>-th callback. Every
  \<^verbatim>\<open>send\<close> is taken to succeed, and no other handler runs between the callbacks.
\<close>

function reader_loop :: "jsfile \<Rightarrow> (nat \<Rightarrow> int) \<Rightarrow> nat \<Rightarrow> nat \<Rightarrow> client \<Rightarrow> client \<times> effect list" where
  "reader_loop f clock k offset c =
     (if dataChannel c = None then (c, [])
      else if offset + length (readSlice f offset) < file_size f then
        (let r = reader_loop f clock (Suc k) (offset + length (readSlice f offset))
                   (snd (onload_update f (clock k) (readSlice f offset) offset c))
         in (fst r, Send (Binary (readSlice f offset)) # snd r))
      else
        ((snd (onload_update f (clock k) (readSlice f offset) offset c))
           \<lparr>status := ''File sent successfully!''\<rparr>,
         [Send (Binary (readSlice f offset)), Send (Text (Some FileComplete)),
          Toast ''Transfer Complete'' ''File has been sent successfully'']))"
  by pat_completeness auto
termination
proof (relation "measure (\<lambda>(f, clock, k, offset, c). file_size f - offset)")
  show "wf (measure (\<lambda>(f, clock, k, offset, c). file_size f - offset))"
    by simp
next
  fix f :: jsfile and clock :: "nat \<Rightarrow> int" and k offset :: nat and c :: client
  assume lt: "offset + length (readSlice f offset) < file_size f"
  have "0 < length (readSlice f offset)"
  proof (rule ccontr)
    assume "\<not> 0 < length (readSlice f offset)"
    then have "length (readSlice f offset) = 0" by simp
    then have "file_size f \<le> offset"
      by (simp add: readSlice_def CHUNK_SIZE_def file_size_def)
    with lt show False by simp
  qed
  with lt have "file_size f - (offset + length (readSlice f offset)) < file_size f - offset"
    by linarith
  then show "((f, clock, Suc k, offset + length (readSlice f offset),
             snd (onload_update f (clock k) (readSlice f offset) offset c)),
            (f, clock, k, offset, c))
          \<in> measure (\<lambda>(f, clock, k, offset, c). file_size f - offset)"
    by simp
qed

declare reader_loop.simps [simp del]

text \<open>\<^verbatim>\<open>sendFile\<close>; \<open>clock 0\<close> is the reading taken for \<^verbatim>\<open>startTimeRef\<close>.\<close>

definition sendFile :: "jsfile \<Rightarrow> (nat \<Rightarrow> int) \<Rightarrow> client \<Rightarrow> client \<times> effect list" where
  "sendFile f clock c =
     (if dataChannel c \<noteq> Some Open then
        (c, [Toast ''Connection Error'' ''Data channel is not open''])
      else
        (let r = reader_loop f clock 1 0 (c\<lparr>startTime := clock 0\<rparr>)
         in (fst r,
             Send (Text (Some (FileInfo (file_name f) (file_size f) (file_type f)))) # snd r)))"

text \<open>The frames put on the channel, the chunks among them, and the downloads triggered.\<close>

fun sent_frames :: "effect list \<Rightarrow> frame list" where
  "sent_frames [] = []"
| "sent_frames (Send fr # es) = fr # sent_frames es"
| "sent_frames (e # es) = sent_frames es"

fun binary_frames :: "frame list \<Rightarrow> bytes list" where
  "binary_frames [] = []"
| "binary_frames (Binary b # frs) = b # binary_frames frs"
| "binary_frames (fr # frs) = binary_frames frs"

fun downloads :: "effect list \<Rightarrow> (string \<times> string \<times> bytes) list" where
  "downloads [] = []"
| "downloads (Download name ftype content # es) = (name, ftype, content) # downloads es"
| "downloads (e # es) = downloads es"

text \<open>
  Inputs for the examples below: a clock that starts at 1000 ms and advances by one
  millisecond per reading, a clock that starts at 1000 ms and advances by 600 ms per
  reading, a file of no bytes, and a hook whose data channel is open.
\<close>

definition example_clock :: "nat \<Rightarrow> int" where
  "example_clock k = 1000 + int k"


definition empty_file :: jsfile where
  "empty_file = \<lparr>file_name = ''empty.txt'', file_type = ''text/plain'', file_bytes = []\<rparr>"

definition open_sender :: client where
  "open_sender = initial_client\<lparr>dataChannel := Some Open\<rparr>"

text \<open>The messages a handler emits to the signaling server.\<close>

fun socket_emits :: "effect list \<Rightarrow> client_msg list" where
  "socket_emits [] = []"
| "socket_emits (SocketEmit m # es) = m # socket_emits es"
| "socket_emits (e # es) = socket_emits es"

text \<open>
  The receiver's byte counter agrees with the chunks it holds:
  \<^verbatim>\<open>receivedSizeRef.current\<close> is the sum of the \<^verbatim>\<open>byteLength\<close>s in
  \<^verbatim>\<open>fileChunksRef.current\<close>.
\<close>

definition chunks_invariant :: "client \<Rightarrow> bool" where
  "chunks_invariant c = (receivedSize c = sum_list (map length (fileChunks c)))"

text \<open>
  The operations that write the receiver's transfer state: a message on the data channel,
  \<^verbatim>\<open>resetConnection\<close> and a file selection.
\<close>

datatype transfer_op = Message int frame | Reset | Select "jsfile list"

fun apply_op :: "client \<Rightarrow> transfer_op \<Rightarrow> client" where
  "apply_op c (Message now fr) = fst (handleDataChannelMessage now fr c)"
| "apply_op c Reset = resetConnection c"
| "apply_op c (Select files) = fst (handleFileSelect files c)"

subsection \<open>The chunking in the specification's words\<close>

text \<open>
  The specification has the sender split the input into 1 MiB chunks, the last one at most
  1 MiB. \<open>chunked\<close> is that split of a byte sequence; an empty input gives the one empty
  chunk the sender's loop produces for it. \<open>frame_lengths n\<close> lists the lengths such a
  split has for an input of \<open>n\<close> bytes.
\<close>

function chunked :: "bytes \<Rightarrow> bytes list" where
  "chunked bs =
     (if length bs \<le> CHUNK_SIZE then [bs]
      else take CHUNK_SIZE bs # chunked (drop CHUNK_SIZE bs))"
  by pat_completeness auto
termination
  by (relation "measure length") (auto simp: CHUNK_SIZE_def)

declare chunked.simps [simp del]

definition frame_lengths :: "nat \<Rightarrow> nat list" where
  "frame_lengths n =
     replicate (n div CHUNK_SIZE) CHUNK_SIZE @
       (if n mod CHUNK_SIZE = 0 \<and> 0 < n then [] else [n mod CHUNK_SIZE])"

subsection \<open>The time remaining in the specification's words\<close>




subsection \<open>The registry contract in the specification's words\<close>

text \<open>
  The specification describes \<open>leave(id)\<close> as: remove \<open>id\<close> from whichever slots it
  occupies across all rooms, delete any room left with both slots empty, and notify the
  other occupant of each such room if one remains. These definitions follow that wording;
  they are compared with \<open>on_disconnect\<close> below.
\<close>

definition occupies :: "conn_id \<Rightarrow> room \<Rightarrow> bool" where
  "occupies i room = (sender room = Some i \<or> receiver room = Some i)"

definition vacate :: "conn_id \<Rightarrow> room \<Rightarrow> room" where
  "vacate i room =
     room\<lparr>sender := (if sender room = Some i then None else sender room),
          receiver := (if receiver room = Some i then None else receiver room)\<rparr>"

definition vacant :: "room \<Rightarrow> bool" where
  "vacant room = (sender room = None \<and> receiver room = None)"

definition spec_leave :: "conn_id \<Rightarrow> registry \<Rightarrow> registry" where
  "spec_leave i rooms =
     map (\<lambda>(k, room). (k, vacate i room))
       (filter (\<lambda>(k, room). \<not> (occupies i room \<and> vacant (vacate i room))) rooms)"

text \<open>The occupant that remains in a room \<open>i\<close> leaves, if the room held \<open>i\<close> at all.\<close>

definition remaining_peer :: "conn_id \<Rightarrow> room \<Rightarrow> conn_id list" where
  "remaining_peer i room =
     (if occupies i room then
        (case sender (vacate i room) of
           Some b \<Rightarrow> [b]
         | None \<Rightarrow> (case receiver (vacate i room) of Some b \<Rightarrow> [b] | None \<Rightarrow> []))
      else [])"

definition spec_notified :: "conn_id \<Rightarrow> registry \<Rightarrow> conn_id list" where
  "spec_notified i rooms = concat (map (\<lambda>(k, room). remaining_peer i room) rooms)"

text \<open>
  The specification's \<open>peerOf(code, id)\<close>: the occupant of the slot opposite the one \<open>id\<close>
  holds in the room \<open>code\<close>, and nobody when there is no such room, when \<open>id\<close> holds no
  slot of it, or when the opposite slot is empty.
\<close>

definition peerOf :: "registry \<Rightarrow> room_id \<Rightarrow> conn_id \<Rightarrow> conn_id option" where
  "peerOf rooms code i =
     (case map_of rooms code of
        None \<Rightarrow> None
      | Some room \<Rightarrow>
          if sender room = Some i then receiver room
          else if receiver room = Some i then sender room
          else None)"

text \<open>What one pass of the loop body emits for the room it visits.\<close>

definition room_notes :: "conn_id \<Rightarrow> room \<Rightarrow> emission list" where
  "room_notes i room =
     (if sender room = Some i then
        (case receiver room of Some t \<Rightarrow> [(t, PeerDisconnected)] | None \<Rightarrow> [])
      else if receiver room = Some i then
        (case sender room of Some t \<Rightarrow> [(t, PeerDisconnected)] | None \<Rightarrow> [])
      else [])"

section \<open>Routing after a sender and a receiver have joined\<close>

text \<open>
  C2. After \<open>A\<close> joins a room as sender and \<open>B\<close> joins it as receiver, the room holds
  \<open>A\<close> and \<open>B\<close>, the sender is told that the receiver joined, an offer from \<open>A\<close> goes to
  \<open>B\<close>, an answer from \<open>B\<close> goes to \<open>A\<close>, and an ICE candidate from either goes to the
  other. This holds for every room id and every registry before the joins.
\<close>

theorem join_then_route:
  fixes code :: room_id and A B :: conn_id and rooms :: registry
  assumes "A \<noteq> B"
  shows "let rooms1 = fst (join_room A code True rooms);
             joined = join_room B code False rooms1;
             rooms2 = fst joined
         in map_of rooms2 code = Some \<lparr>sender = Some A, receiver = Some B\<rparr>
          \<and> snd joined = [(A, ReceiverJoined)]
          \<and> on_offer A code p rooms2 = (rooms2, [(B, Offer p)])
          \<and> on_answer B code p rooms2 = (rooms2, [(A, Answer p)])
          \<and> on_ice_candidate A code p rooms2 = (rooms2, [(B, IceCandidate p)])
          \<and> on_ice_candidate B code p rooms2 = (rooms2, [(A, IceCandidate p)])"
  using assms
  by (cases "map_of rooms code")
     (simp_all add: join_room_def on_offer_def on_answer_def on_ice_candidate_def
        Let_def update_conv')

theorem join_then_route_witness:
  "''sockA'' \<noteq> ''sockB'' \<and>
   (let rooms1 = fst (join_room ''sockA'' ''ab12cd34'' True []);
        joined = join_room ''sockB'' ''ab12cd34'' False rooms1;
        rooms2 = fst joined
    in map_of rooms2 ''ab12cd34'' = Some \<lparr>sender = Some ''sockA'', receiver = Some ''sockB''\<rparr>
     \<and> snd joined = [(''sockA'', ReceiverJoined)]
     \<and> on_offer ''sockA'' ''ab12cd34'' ''sdp'' rooms2 = (rooms2, [(''sockB'', Offer ''sdp'')])
     \<and> on_answer ''sockB'' ''ab12cd34'' ''sdp'' rooms2 = (rooms2, [(''sockA'', Answer ''sdp'')])
     \<and> on_ice_candidate ''sockA'' ''ab12cd34'' ''sdp'' rooms2 = (rooms2, [(''sockB'', IceCandidate ''sdp'')])
     \<and> on_ice_candidate ''sockB'' ''ab12cd34'' ''sdp'' rooms2 = (rooms2, [(''sockA'', IceCandidate ''sdp'')]))"
proof -
  have ne: "''sockA'' \<noteq> ''sockB''" by simp
  show ?thesis
    using ne join_then_route [OF ne, of "''ab12cd34''" "[]" "''sdp''"] by blast
qed

section \<open>Messages with nobody to deliver to\<close>

text \<open>
  C6, as the code has it. The connection \<open>c\<close> holds a slot of the room and the opposite
  slot is empty, so that \<open>peerOf\<close> finds nobody. Then an ICE candidate from \<open>c\<close> is
  dropped; an offer from \<open>c\<close> is dropped when \<open>c\<close> is the room's sender and an answer
  from \<open>c\<close> when \<open>c\<close> is the room's receiver. A dropped message leaves the registry as it
  was and emits nothing, and the server's run on any later messages is the run it would
  have made had the message never arrived: nothing is kept for a peer that joins
  afterwards. The offer handler routes to the receiver slot and the answer handler to the
  sender slot without looking at the connection that sent the message, so an offer from a
  lone receiver and an answer from a lone sender are not dropped: the registry is
  unchanged, and the message is emitted back to \<open>c\<close> itself.
\<close>

theorem relay_without_peer:
  assumes "map_of rooms roomId = Some room"
    and "occupies c room"
    and "peerOf rooms roomId c = None"
  shows "on_message c (IceCandidateMsg roomId p) rooms = (rooms, [])
       \<and> serve ((c, IceCandidateMsg roomId p) # later) rooms = serve later rooms
       \<and> on_message c (OfferMsg roomId p) rooms
           = (rooms, if sender room = Some c then [] else [(c, Offer p)])
       \<and> on_message c (AnswerMsg roomId p) rooms
           = (rooms, if receiver room = Some c then [] else [(c, Answer p)])
       \<and> (sender room = Some c \<longrightarrow>
             serve ((c, OfferMsg roomId p) # later) rooms = serve later rooms)
       \<and> (receiver room = Some c \<longrightarrow>
             serve ((c, AnswerMsg roomId p) # later) rooms = serve later rooms)"
proof (cases "sender room = Some c")
  case True
  with assms have r: "receiver room = None"
    by (simp add: peerOf_def)
  have ice: "on_ice_candidate c roomId p rooms = (rooms, [])"
    using assms(1) True r by (simp add: on_ice_candidate_def)
  have off: "on_offer c roomId p rooms = (rooms, [])"
    using assms(1) r by (simp add: on_offer_def)
  have ans: "on_answer c roomId p rooms = (rooms, [(c, Answer p)])"
    using assms(1) True by (simp add: on_answer_def)
  from True r ice off ans show ?thesis by simp
next
  case False
  with assms(2) have rc: "receiver room = Some c"
    by (simp add: occupies_def)
  with assms False have s: "sender room = None"
    by (simp add: peerOf_def)
  have ice: "on_ice_candidate c roomId p rooms = (rooms, [])"
    using assms(1) s by (simp add: on_ice_candidate_def)
  have off: "on_offer c roomId p rooms = (rooms, [(c, Offer p)])"
    using assms(1) rc by (simp add: on_offer_def)
  have ans: "on_answer c roomId p rooms = (rooms, [])"
    using assms(1) s by (simp add: on_answer_def)
  from False rc s ice off ans show ?thesis by simp
qed

theorem relay_without_peer_witness:
  "map_of [(''ab12cd34'', \<lparr>sender = Some ''sockA'', receiver = None\<rparr>)] ''ab12cd34''
     = Some \<lparr>sender = Some ''sockA'', receiver = None\<rparr>
   \<and> occupies ''sockA'' \<lparr>sender = Some ''sockA'', receiver = None\<rparr>
   \<and> peerOf [(''ab12cd34'', \<lparr>sender = Some ''sockA'', receiver = None\<rparr>)] ''ab12cd34'' ''sockA''
       = None
   \<and> on_message ''sockA'' (OfferMsg ''ab12cd34'' ''sdp'')
        [(''ab12cd34'', \<lparr>sender = Some ''sockA'', receiver = None\<rparr>)]
       = ([(''ab12cd34'', \<lparr>sender = Some ''sockA'', receiver = None\<rparr>)], [])
   \<and> on_message ''sockA'' (AnswerMsg ''ab12cd34'' ''sdp'')
        [(''ab12cd34'', \<lparr>sender = Some ''sockA'', receiver = None\<rparr>)]
       = ([(''ab12cd34'', \<lparr>sender = Some ''sockA'', receiver = None\<rparr>)],
          [(''sockA'', Answer ''sdp'')])
   \<and> serve [(''sockA'', OfferMsg ''ab12cd34'' ''sdp''), (''sockB'', JoinRoom ''ab12cd34'' False)]
        [(''ab12cd34'', \<lparr>sender = Some ''sockA'', receiver = None\<rparr>)]
       = ([(''ab12cd34'', \<lparr>sender = Some ''sockA'', receiver = Some ''sockB''\<rparr>)],
          [(''sockA'', ReceiverJoined)])"
proof -
  let ?room = "\<lparr>sender = Some ''sockA'', receiver = None\<rparr>"
  let ?rooms = "[(''ab12cd34'', ?room)]"
  have h1: "map_of ?rooms ''ab12cd34'' = Some ?room" by simp
  have h2: "occupies ''sockA'' ?room" by (simp add: occupies_def)
  have h3: "peerOf ?rooms ''ab12cd34'' ''sockA'' = None" by (simp add: peerOf_def)
  have later: "serve [(''sockB'', JoinRoom ''ab12cd34'' False)] ?rooms
       = ([(''ab12cd34'', \<lparr>sender = Some ''sockA'', receiver = Some ''sockB''\<rparr>)],
          [(''sockA'', ReceiverJoined)])"
    by (simp add: join_room_def)
  note t = relay_without_peer [OF h1 h2 h3, of "''sdp''" "[(''sockB'', JoinRoom ''ab12cd34'' False)]"]
  from t have off: "on_message ''sockA'' (OfferMsg ''ab12cd34'' ''sdp'') ?rooms = (?rooms, [])"
    by simp
  from t have ans: "on_message ''sockA'' (AnswerMsg ''ab12cd34'' ''sdp'') ?rooms
      = (?rooms, [(''sockA'', Answer ''sdp'')])"
    by simp
  from t have run: "serve [(''sockA'', OfferMsg ''ab12cd34'' ''sdp''),
        (''sockB'', JoinRoom ''ab12cd34'' False)] ?rooms
      = serve [(''sockB'', JoinRoom ''ab12cd34'' False)] ?rooms"
    by simp
  from h1 h2 h3 off ans run later show ?thesis by simp
qed

text \<open>
  A receiver joins an unused room and sends an offer for it. The slot opposite the
  receiver is empty, and the offer is emitted back to the receiver instead of being
  dropped.
\<close>

theorem lone_receiver_offer_counterexample:
  "fst (join_room ''sockB'' ''ab12cd34'' False [])
     = [(''ab12cd34'', \<lparr>sender = None, receiver = Some ''sockB''\<rparr>)]
   \<and> peerOf [(''ab12cd34'', \<lparr>sender = None, receiver = Some ''sockB''\<rparr>)] ''ab12cd34'' ''sockB''
       = None
   \<and> on_message ''sockB'' (OfferMsg ''ab12cd34'' ''sdp'')
        [(''ab12cd34'', \<lparr>sender = None, receiver = Some ''sockB''\<rparr>)]
       = ([(''ab12cd34'', \<lparr>sender = None, receiver = Some ''sockB''\<rparr>)],
          [(''sockB'', Offer ''sdp'')])"
  by (simp add: join_room_def peerOf_def on_offer_def)

section \<open>Disconnection\<close>

lemma delete_mid:
  "k \<notin> fst ` set pre \<Longrightarrow> k \<notin> fst ` set rest \<Longrightarrow>
   AList.delete k (pre @ (k, v) # rest) = pre @ rest"
  by (induction pre) auto

lemma update_mid:
  "k \<notin> fst ` set pre \<Longrightarrow> AList.update k v' (pre @ (k, v) # rest) = pre @ (k, v') # rest"
  by (induction pre) auto

lemma sender_vacate:
  "sender (vacate i room) = (if sender room = Some i then None else sender room)"
  by (simp add: vacate_def)

lemma receiver_vacate:
  "receiver (vacate i room) = (if receiver room = Some i then None else receiver room)"
  by (simp add: vacate_def)

lemma disconnect_room_step:
  assumes k1: "k \<notin> fst ` set pre" and k2: "k \<notin> fst ` set rest"
  shows "disconnect_room i (pre @ (k, room) # rest, out) (k, room) =
           (pre @ spec_leave i [(k, room)] @ rest, out @ room_notes i room)"
proof -
  obtain s r where room: "room = \<lparr>sender = s, receiver = r\<rparr>"
    by (cases room) simp
  note defs = disconnect_room_def spec_leave_def room_notes_def occupies_def vacate_def
    vacant_def delete_mid [OF k1 k2] update_mid [OF k1] room
  show ?thesis
  proof (cases "s = Some i")
    case True
    show ?thesis
    proof (cases r)
      case None
      with True show ?thesis by (simp add: defs)
    next
      case (Some b)
      with True show ?thesis by (cases "b = i") (simp_all add: defs)
    qed
  next
    case False
    show ?thesis
    proof (cases "r = Some i")
      case True
      with False show ?thesis by (cases s) (simp_all add: defs)
    next
      case r: False
      with False show ?thesis by (simp add: defs)
    qed
  qed
qed

lemma spec_leave_keys: "fst ` set (spec_leave i rooms) \<subseteq> fst ` set rooms"
  by (force simp: spec_leave_def)

lemma spec_leave_append: "spec_leave i (xs @ ys) = spec_leave i xs @ spec_leave i ys"
  by (simp add: spec_leave_def)

lemma fold_disconnect:
  "distinct (map fst (pre @ suf)) \<Longrightarrow>
   foldl (disconnect_room i) (pre @ suf, out) suf =
     (pre @ spec_leave i suf, out @ concat (map (\<lambda>(k, room). room_notes i room) suf))"
proof (induction suf arbitrary: pre out)
  case Nil
  then show ?case by (simp add: spec_leave_def)
next
  case (Cons e suf)
  obtain k room where e: "e = (k, room)" by (cases e)
  from Cons.prems e have k1: "k \<notin> fst ` set pre" and k2: "k \<notin> fst ` set suf"
    by auto
  have keys: "fst ` set (spec_leave i [(k, room)]) \<subseteq> {k}"
    using spec_leave_keys [of i "[(k, room)]"] by simp
  have d: "distinct (map fst ((pre @ spec_leave i [(k, room)]) @ suf))"
    using Cons.prems e keys k1 k2
    by (auto simp: spec_leave_def split: if_splits)
  have "foldl (disconnect_room i) (pre @ e # suf, out) (e # suf) =
        foldl (disconnect_room i)
          ((pre @ spec_leave i [(k, room)]) @ suf, out @ room_notes i room) suf"
    using disconnect_room_step [OF k1 k2] e by simp
  also have "\<dots> = ((pre @ spec_leave i [(k, room)]) @ spec_leave i suf,
        (out @ room_notes i room) @ concat (map (\<lambda>(k, room). room_notes i room) suf))"
    by (rule Cons.IH [OF d])
  finally show ?case
    using e spec_leave_append [of i "[(k, room)]" suf] by simp
qed

lemma on_disconnect_eq:
  assumes "distinct (map fst rooms)"
  shows "on_disconnect i rooms =
           (spec_leave i rooms, concat (map (\<lambda>(k, room). room_notes i room) rooms))"
  using fold_disconnect [of "[]" rooms i "[]"] assms by (simp add: on_disconnect_def)

lemma room_notes_sender:
  "room_notes i \<lparr>sender = Some i, receiver = r\<rparr> =
     (case r of Some t \<Rightarrow> [(t, PeerDisconnected)] | None \<Rightarrow> [])"
  by (simp add: room_notes_def)

lemma room_notes_receiver:
  "s \<noteq> Some i \<Longrightarrow> room_notes i \<lparr>sender = s, receiver = Some i\<rparr> =
     (case s of Some t \<Rightarrow> [(t, PeerDisconnected)] | None \<Rightarrow> [])"
  by (simp add: room_notes_def)

lemma room_notes_absent:
  "s \<noteq> Some i \<Longrightarrow> r \<noteq> Some i \<Longrightarrow> room_notes i \<lparr>sender = s, receiver = r\<rparr> = []"
  by (simp add: room_notes_def)

lemma remaining_peer_sender:
  "remaining_peer i \<lparr>sender = Some i, receiver = r\<rparr> =
     (case r of Some t \<Rightarrow> (if t = i then [] else [t]) | None \<Rightarrow> [])"
  by (cases r) (simp_all add: remaining_peer_def occupies_def vacate_def)

lemma remaining_peer_receiver:
  "s \<noteq> Some i \<Longrightarrow> remaining_peer i \<lparr>sender = s, receiver = Some i\<rparr> =
     (case s of Some t \<Rightarrow> [t] | None \<Rightarrow> [])"
  by (cases s) (simp_all add: remaining_peer_def occupies_def vacate_def)

lemma remaining_peer_absent:
  "s \<noteq> Some i \<Longrightarrow> r \<noteq> Some i \<Longrightarrow> remaining_peer i \<lparr>sender = s, receiver = r\<rparr> = []"
  by (simp add: remaining_peer_def occupies_def)

lemma room_notes_others:
  "filter (\<lambda>n. fst n \<noteq> i) (room_notes i room) =
     map (\<lambda>b. (b, PeerDisconnected)) (remaining_peer i room)"
proof -
  obtain s r where room: "room = \<lparr>sender = s, receiver = r\<rparr>"
    by (cases room) simp
  show ?thesis
  proof (cases "s = Some i")
    case True
    show ?thesis
    proof (cases r)
      case None
      then show ?thesis
        by (simp add: room True room_notes_sender remaining_peer_sender)
    next
      case (Some b)
      then show ?thesis
        by (cases "b = i") (simp_all add: room True room_notes_sender remaining_peer_sender)
    qed
  next
    case False
    show ?thesis
    proof (cases "r = Some i")
      case True
      show ?thesis
      proof (cases s)
        case None
        then show ?thesis
          by (simp add: room True room_notes_receiver remaining_peer_receiver)
      next
        case (Some a)
        with False have "a \<noteq> i" by simp
        with Some show ?thesis
          by (simp add: room True room_notes_receiver remaining_peer_receiver)
      qed
    next
      case r: False
      with False show ?thesis
        by (simp add: room room_notes_absent remaining_peer_absent)
    qed
  qed
qed

lemma room_notes_all:
  assumes "\<not> (sender room = Some i \<and> receiver room = Some i)"
  shows "room_notes i room = map (\<lambda>b. (b, PeerDisconnected)) (remaining_peer i room)"
proof -
  obtain s r where room: "room = \<lparr>sender = s, receiver = r\<rparr>"
    by (cases room) simp
  show ?thesis
  proof (cases "s = Some i")
    case True
    with assms room have ri: "r \<noteq> Some i" by simp
    show ?thesis
    proof (cases r)
      case None
      then show ?thesis
        by (simp add: room True room_notes_sender remaining_peer_sender)
    next
      case (Some b)
      with ri have "b \<noteq> i" by simp
      with Some show ?thesis
        by (simp add: room True room_notes_sender remaining_peer_sender)
    qed
  next
    case False
    show ?thesis
    proof (cases "r = Some i")
      case True
      with False show ?thesis
        by (cases s) (simp_all add: room room_notes_receiver remaining_peer_receiver)
    next
      case r: False
      with False show ?thesis
        by (simp add: room room_notes_absent remaining_peer_absent)
    qed
  qed
qed

lemma room_notes_event:
  assumes "n \<in> set (room_notes i room)"
  shows "snd n = PeerDisconnected"
proof -
  obtain s r where room: "room = \<lparr>sender = s, receiver = r\<rparr>"
    by (cases room) simp
  show ?thesis
  proof (cases "s = Some i")
    case True
    show ?thesis
      using assms by (cases r) (auto simp: room True room_notes_sender)
  next
    case False
    show ?thesis
    proof (cases "r = Some i")
      case True
      with False show ?thesis
        using assms by (cases s) (auto simp: room room_notes_receiver)
    next
      case r: False
      with False show ?thesis
        using assms by (simp add: room room_notes_absent)
    qed
  qed
qed

lemma notes_others:
  "filter (\<lambda>n. fst n \<noteq> i) (concat (map (\<lambda>(k, room). room_notes i room) rooms)) =
     map (\<lambda>b. (b, PeerDisconnected)) (spec_notified i rooms)"
  by (induction rooms) (auto simp: spec_notified_def room_notes_others)

lemma notes_all:
  "\<forall>entry \<in> set rooms. \<not> (sender (snd entry) = Some i \<and> receiver (snd entry) = Some i) \<Longrightarrow>
   concat (map (\<lambda>(k, room). room_notes i room) rooms) =
     map (\<lambda>b. (b, PeerDisconnected)) (spec_notified i rooms)"
  by (induction rooms) (auto simp: spec_notified_def room_notes_all)

lemma notes_event:
  "n \<in> set (concat (map (\<lambda>(k, room). room_notes i room) rooms)) \<Longrightarrow> snd n = PeerDisconnected"
  by (auto dest: room_notes_event)

lemma spec_leave_gone:
  "entry \<in> set (spec_leave i rooms) \<Longrightarrow> \<not> occupies i (snd entry)"
  by (auto simp: spec_leave_def occupies_def sender_vacate receiver_vacate split: if_splits)

text \<open>
  C7. When connection \<open>A\<close> disconnects, the registry becomes what the specification's
  \<open>leave(A)\<close> describes: \<open>A\<close> is taken out of every slot it held, every room this leaves
  with both slots empty is deleted, and every other room is kept in place. \<open>A\<close> then
  occupies no slot. Every emission is a \<open>peer-disconnected\<close> notification, and those
  addressed to connections other than \<open>A\<close> are exactly one for each room that held \<open>A\<close>
  and in which another occupant remains, addressed to that occupant. When no room held
  \<open>A\<close> in both slots these are all the emissions; a room that did adds one notification
  addressed to \<open>A\<close> itself, the connection that has just closed.
\<close>

theorem disconnect_leaves_rooms:
  assumes "distinct (map fst rooms)"
  shows "fst (on_disconnect A rooms) = spec_leave A rooms
       \<and> (\<forall>entry \<in> set (fst (on_disconnect A rooms)). \<not> occupies A (snd entry))
       \<and> (\<forall>n \<in> set (snd (on_disconnect A rooms)). snd n = PeerDisconnected)
       \<and> filter (\<lambda>n. fst n \<noteq> A) (snd (on_disconnect A rooms))
           = map (\<lambda>B. (B, PeerDisconnected)) (spec_notified A rooms)
       \<and> ((\<forall>entry \<in> set rooms. \<not> (sender (snd entry) = Some A \<and> receiver (snd entry) = Some A))
            \<longrightarrow> snd (on_disconnect A rooms)
                  = map (\<lambda>B. (B, PeerDisconnected)) (spec_notified A rooms))"
  using on_disconnect_eq [OF assms, of A] spec_leave_gone [of _ A rooms]
    notes_event [of _ A rooms] notes_others [of A rooms] notes_all [of rooms A]
  by auto

theorem disconnect_leaves_rooms_witness:
  "distinct (map fst
      [(''r1'', \<lparr>sender = Some ''sockA'', receiver = Some ''sockB''\<rparr>),
       (''r2'', \<lparr>sender = Some ''sockA'', receiver = None\<rparr>),
       (''r3'', \<lparr>sender = Some ''sockC'', receiver = Some ''sockD''\<rparr>)])
   \<and> on_disconnect ''sockA''
      [(''r1'', \<lparr>sender = Some ''sockA'', receiver = Some ''sockB''\<rparr>),
       (''r2'', \<lparr>sender = Some ''sockA'', receiver = None\<rparr>),
       (''r3'', \<lparr>sender = Some ''sockC'', receiver = Some ''sockD''\<rparr>)]
     = ([(''r1'', \<lparr>sender = None, receiver = Some ''sockB''\<rparr>),
         (''r3'', \<lparr>sender = Some ''sockC'', receiver = Some ''sockD''\<rparr>)],
        [(''sockB'', PeerDisconnected)])"
proof -
  let ?rooms = "[(''r1'', \<lparr>sender = Some ''sockA'', receiver = Some ''sockB''\<rparr>),
       (''r2'', \<lparr>sender = Some ''sockA'', receiver = None\<rparr>),
       (''r3'', \<lparr>sender = Some ''sockC'', receiver = Some ''sockD''\<rparr>)]"
  have d: "distinct (map fst ?rooms)" by simp
  have pure: "\<forall>entry \<in> set ?rooms.
      \<not> (sender (snd entry) = Some ''sockA'' \<and> receiver (snd entry) = Some ''sockA'')"
    by simp
  have l: "spec_leave ''sockA'' ?rooms =
      [(''r1'', \<lparr>sender = None, receiver = Some ''sockB''\<rparr>),
       (''r3'', \<lparr>sender = Some ''sockC'', receiver = Some ''sockD''\<rparr>)]"
    by (simp add: spec_leave_def occupies_def vacate_def vacant_def)
  have n: "spec_notified ''sockA'' ?rooms = [''sockB'']"
    by (simp add: spec_notified_def remaining_peer_def occupies_def vacate_def)
  from disconnect_leaves_rooms [OF d, of "''sockA''"] pure l n
  have "fst (on_disconnect ''sockA'' ?rooms) =
      [(''r1'', \<lparr>sender = None, receiver = Some ''sockB''\<rparr>),
       (''r3'', \<lparr>sender = Some ''sockC'', receiver = Some ''sockD''\<rparr>)]"
    and "snd (on_disconnect ''sockA'' ?rooms) = [(''sockB'', PeerDisconnected)]"
    by simp_all
  then have "on_disconnect ''sockA'' ?rooms =
      ([(''r1'', \<lparr>sender = None, receiver = Some ''sockB''\<rparr>),
        (''r3'', \<lparr>sender = Some ''sockC'', receiver = Some ''sockD''\<rparr>)],
       [(''sockB'', PeerDisconnected)])"
    by (simp add: prod_eq_iff)
  with d show ?thesis by blast
qed

section \<open>Rejecting an oversized file\<close>

text \<open>
  C8. Selecting a file of more than 1 GiB (1024 * 1024 * 1024 bytes) leaves the whole state
  of the hook as it was (selected file, share code, progress, time remaining, status,
  connection state and the transfer cells) and does nothing but show a toast: nothing is
  emitted to the signaling server, so no room is joined, and nothing is sent on the data
  channel. If no file was selected before, none is selected afterwards, and generating a
  code then does nothing either.
\<close>

theorem oversized_file_rejected:
  assumes "1024 * 1024 * 1024 < file_size f"
  shows "handleFileSelect (f # rest) c = (c, [Toast ''File too large'' ''Maximum file size is 1GB''])
       \<and> socket_emits (snd (handleFileSelect (f # rest) c)) = []
       \<and> sent_frames (snd (handleFileSelect (f # rest) c)) = []
       \<and> (selectedFile c = None \<longrightarrow>
            generateCode code (fst (handleFileSelect (f # rest) c)) = (c, []))"
  using assms by (simp add: handleFileSelect_def generateCode_def)

theorem oversized_file_rejected_witness:
  "1024 * 1024 * 1024
     < file_size \<lparr>file_name = ''disk.img'', file_type = [], file_bytes = replicate 1073741825 0\<rparr>
   \<and> selectedFile initial_client = None
   \<and> handleFileSelect
        [\<lparr>file_name = ''disk.img'', file_type = [], file_bytes = replicate 1073741825 0\<rparr>]
        initial_client
       = (initial_client, [Toast ''File too large'' ''Maximum file size is 1GB''])
   \<and> generateCode ''ab12cd34'' (fst (handleFileSelect
        [\<lparr>file_name = ''disk.img'', file_type = [], file_bytes = replicate 1073741825 0\<rparr>]
        initial_client))
       = (initial_client, [])"
proof -
  have big: "1024 * 1024 * 1024
     < file_size \<lparr>file_name = ''disk.img'', file_type = [], file_bytes = replicate 1073741825 0\<rparr>"
    by (simp add: file_size_def)
  have none: "selectedFile initial_client = None"
    by (simp add: initial_client_def)
  show ?thesis
    using big none oversized_file_rejected [OF big, of "[]" initial_client "''ab12cd34''"]
    by blast
qed

section \<open>The receiver's byte counter\<close>

lemma binary_step:
  "fileChunks (fst (handleDataChannelMessage now (Binary d) c)) = fileChunks c @ [d]
   \<and> receivedSize (fst (handleDataChannelMessage now (Binary d) c)) = receivedSize c + length d
   \<and> totalSize (fst (handleDataChannelMessage now (Binary d) c)) = totalSize c
   \<and> fileName (fst (handleDataChannelMessage now (Binary d) c)) = fileName c
   \<and> fileType (fst (handleDataChannelMessage now (Binary d) c)) = fileType c
   \<and> startTime (fst (handleDataChannelMessage now (Binary d) c)) = startTime c
   \<and> snd (handleDataChannelMessage now (Binary d) c) = []"
  by (simp add: handleDataChannelMessage_def Let_def)

lemma message_invariant:
  "chunks_invariant c \<Longrightarrow> chunks_invariant (fst (handleDataChannelMessage now fr c))"
proof (cases fr)
  case (Binary d)
  assume "chunks_invariant c"
  then show ?thesis
    using binary_step [of now d c] by (simp add: Binary chunks_invariant_def)
next
  case (Text m)
  assume inv: "chunks_invariant c"
  show ?thesis
  proof (cases m)
    case None
    with inv Text show ?thesis by (simp add: handleDataChannelMessage_def)
  next
    case (Some md)
    with inv Text show ?thesis
      by (cases md) (simp_all add: handleDataChannelMessage_def saveReceivedFile_def chunks_invariant_def)
  qed
qed

lemma apply_op_invariant:
  "chunks_invariant c \<Longrightarrow> chunks_invariant (apply_op c op)"
proof (cases op)
  case (Message now fr)
  assume "chunks_invariant c"
  then show ?thesis using message_invariant [of c now fr] by (simp add: Message)
next
  case Reset
  then show ?thesis by (simp add: resetConnection_def chunks_invariant_def)
next
  case (Select files)
  assume inv: "chunks_invariant c"
  show ?thesis
  proof (cases files)
    case Nil
    with inv Select show ?thesis by (simp add: handleFileSelect_def)
  next
    case (Cons f rest)
    with inv Select show ?thesis
      by (simp add: handleFileSelect_def chunks_invariant_def)
  qed
qed

lemma run_invariant:
  "chunks_invariant c \<Longrightarrow> chunks_invariant (foldl apply_op c ops)"
  by (induction ops arbitrary: c) (simp_all add: apply_op_invariant)

text \<open>
  C10. The receiver's byte counter equals the sum of the lengths of the chunks in the
  accumulator after a \<^verbatim>\<open>file-info\<close> frame (both are reset), after a binary frame
  (the chunk is appended and the counter grows by its length) and after
  \<^verbatim>\<open>resetConnection\<close> (both are reset), and so after every sequence of data-channel
  messages, resets and file selections from the hook's initial state.
\<close>

theorem received_size_matches_chunks:
  "(let c1 = fst (handleDataChannelMessage now (Text (Some (FileInfo name fsize ftype))) c)
    in fileChunks c1 = [] \<and> receivedSize c1 = 0 \<and> chunks_invariant c1)
   \<and> (chunks_invariant c \<longrightarrow>
        (let c1 = fst (handleDataChannelMessage now (Binary d) c)
         in fileChunks c1 = fileChunks c @ [d]
          \<and> receivedSize c1 = receivedSize c + length d
          \<and> chunks_invariant c1))
   \<and> (let c1 = resetConnection c
      in fileChunks c1 = [] \<and> receivedSize c1 = 0 \<and> chunks_invariant c1)
   \<and> chunks_invariant (foldl apply_op initial_client ops)"
proof -
  have init: "chunks_invariant initial_client"
    by (simp add: chunks_invariant_def initial_client_def)
  have info: "let c1 = fst (handleDataChannelMessage now (Text (Some (FileInfo name fsize ftype))) c)
    in fileChunks c1 = [] \<and> receivedSize c1 = 0 \<and> chunks_invariant c1"
    by (simp add: handleDataChannelMessage_def chunks_invariant_def)
  have bin: "chunks_invariant c \<longrightarrow>
        (let c1 = fst (handleDataChannelMessage now (Binary d) c)
         in fileChunks c1 = fileChunks c @ [d]
          \<and> receivedSize c1 = receivedSize c + length d
          \<and> chunks_invariant c1)"
    using binary_step [of now d c] message_invariant [of c now "Binary d"]
    by (simp add: Let_def)
  have reset: "let c1 = resetConnection c
      in fileChunks c1 = [] \<and> receivedSize c1 = 0 \<and> chunks_invariant c1"
    by (simp add: resetConnection_def chunks_invariant_def)
  from info bin reset run_invariant [OF init, of ops] show ?thesis by blast
qed

theorem received_size_matches_chunks_witness:
  "chunks_invariant initial_client
   \<and> (let c1 = fst (handleDataChannelMessage 1000 (Binary [1, 2, 3]) initial_client)
      in fileChunks c1 = fileChunks initial_client @ [[1, 2, 3]]
       \<and> receivedSize c1 = receivedSize initial_client + length [1, 2, 3 :: byte]
       \<and> chunks_invariant c1)"
proof -
  have init: "chunks_invariant initial_client"
    by (simp add: chunks_invariant_def initial_client_def)
  show ?thesis
    using init received_size_matches_chunks [of 1000 "''a''" 0 "''b''" initial_client "[1, 2, 3]" "[]"]
    by blast
qed

section \<open>The frames of a transfer\<close>

lemma CHUNK_SIZE_pos: "0 < CHUNK_SIZE"
  by (simp add: CHUNK_SIZE_def)

lemma dataChannel_onload_update:
  "dataChannel (snd (onload_update f now r offset c)) = dataChannel c"
  by (simp add: onload_update_def Let_def)

lemma length_readSlice:
  "length (readSlice f offset) = min CHUNK_SIZE (file_size f - offset)"
  by (simp add: readSlice_def file_size_def)

lemma reader_loop_frames:
  "dataChannel c \<noteq> None \<Longrightarrow> offset \<le> file_size f \<Longrightarrow>
   sent_frames (snd (reader_loop f clock k offset c)) =
     map Binary (chunked (drop offset (file_bytes f))) @ [Text (Some FileComplete)]"
proof (induction f clock k offset c rule: reader_loop.induct)
  case (1 f clock k offset c)
  let ?rest = "drop offset (file_bytes f)"
  have len: "length ?rest = file_size f - offset"
    by (simp add: file_size_def)
  show ?case
  proof (cases "offset + length (readSlice f offset) < file_size f")
    case True
    then have big: "CHUNK_SIZE < file_size f - offset"
      by (simp add: length_readSlice min_def split: if_splits)
    then have sl: "length (readSlice f offset) = CHUNK_SIZE"
      by (simp add: length_readSlice)
    have le: "offset + length (readSlice f offset) \<le> file_size f"
      using True by simp
    have dc: "dataChannel (snd (onload_update f (clock k) (readSlice f offset) offset c)) \<noteq> None"
      using "1.prems"(1) by (simp add: dataChannel_onload_update)
    have ih: "sent_frames (snd (reader_loop f clock (Suc k) (offset + length (readSlice f offset))
                (snd (onload_update f (clock k) (readSlice f offset) offset c)))) =
              map Binary (chunked (drop (offset + length (readSlice f offset)) (file_bytes f)))
                @ [Text (Some FileComplete)]"
      using "1.IH" [OF "1.prems"(1) True dc le] .
    have ch: "chunked ?rest = readSlice f offset # chunked (drop (offset + CHUNK_SIZE) (file_bytes f))"
      using big len by (subst chunked.simps) (simp add: readSlice_def add.commute)
    show ?thesis
      using "1.prems"(1) True ih ch sl
      by (subst reader_loop.simps) (simp add: Let_def)
  next
    case False
    with "1.prems"(2) have small: "file_size f - offset \<le> CHUNK_SIZE"
      by (simp add: length_readSlice min_def split: if_splits)
    then have rs: "readSlice f offset = ?rest"
      using len by (simp add: readSlice_def)
    have ch: "chunked ?rest = [?rest]"
      using small len by (subst chunked.simps) simp
    show ?thesis
      using "1.prems"(1) False ch rs
      by (subst reader_loop.simps) simp
  qed
qed

lemma concat_chunked: "concat (chunked bs) = bs"
proof (induction bs rule: chunked.induct)
  case (1 bs)
  show ?case
  proof (cases "length bs \<le> CHUNK_SIZE")
    case True
    then show ?thesis by (subst chunked.simps) simp
  next
    case False
    with 1 show ?thesis by (subst chunked.simps) simp
  qed
qed

lemma frame_lengths_small: "n \<le> CHUNK_SIZE \<Longrightarrow> frame_lengths n = [n]"
proof (cases "n = CHUNK_SIZE")
  case True
  then show ?thesis using CHUNK_SIZE_pos by (simp add: frame_lengths_def)
next
  case False
  assume "n \<le> CHUNK_SIZE"
  with False have "n < CHUNK_SIZE" by simp
  then show ?thesis by (auto simp: frame_lengths_def)
qed

lemma frame_lengths_big:
  assumes "CHUNK_SIZE < n"
  shows "frame_lengths n = CHUNK_SIZE # frame_lengths (n - CHUNK_SIZE)"
proof -
  have d: "n div CHUNK_SIZE = Suc ((n - CHUNK_SIZE) div CHUNK_SIZE)"
    using assms CHUNK_SIZE_pos by (simp add: le_div_geq)
  have m: "n mod CHUNK_SIZE = (n - CHUNK_SIZE) mod CHUNK_SIZE"
    using assms by (simp add: le_mod_geq)
  from assms have p: "0 < n" "0 < n - CHUNK_SIZE" by simp_all
  show ?thesis
    unfolding frame_lengths_def d m using p by simp
qed

lemma length_chunked: "map length (chunked bs) = frame_lengths (length bs)"
proof (induction bs rule: chunked.induct)
  case (1 bs)
  show ?case
  proof (cases "length bs \<le> CHUNK_SIZE")
    case True
    then show ?thesis by (subst chunked.simps) (simp add: frame_lengths_small)
  next
    case False
    then have big: "CHUNK_SIZE < length bs" by simp
    with 1 False show ?thesis
      by (subst chunked.simps) (simp add: frame_lengths_big)
  qed
qed

lemma binary_frames_map: "binary_frames (map Binary bs @ [Text m]) = bs"
  by (induction bs) simp_all

lemma sendFile_frames:
  assumes "dataChannel c = Some Open"
  shows "sent_frames (snd (sendFile f clock c)) =
     Text (Some (FileInfo (file_name f) (file_size f) (file_type f)))
       # map Binary (chunked (file_bytes f)) @ [Text (Some FileComplete)]"
  using assms reader_loop_frames [of "c\<lparr>startTime := clock 0\<rparr>" 0 f clock 1]
  by (simp add: sendFile_def Let_def)


lemma receive_frames_append:
  "receive_frames clock k (xs @ ys) c =
     (let r1 = receive_frames clock k xs c;
          r2 = receive_frames clock (k + length xs) ys (fst r1)
      in (fst r2, snd r1 @ snd r2))"
  by (induction xs arbitrary: k c) (simp_all add: Let_def split_beta)

lemma receive_binaries:
  "fileChunks (fst (receive_frames clock k (map Binary bs) c)) = fileChunks c @ bs
   \<and> receivedSize (fst (receive_frames clock k (map Binary bs) c))
       = receivedSize c + sum_list (map length bs)
   \<and> totalSize (fst (receive_frames clock k (map Binary bs) c)) = totalSize c
   \<and> fileName (fst (receive_frames clock k (map Binary bs) c)) = fileName c
   \<and> fileType (fst (receive_frames clock k (map Binary bs) c)) = fileType c
   \<and> snd (receive_frames clock k (map Binary bs) c) = []"
proof (induction bs arbitrary: k c)
  case Nil
  show ?case by simp
next
  case (Cons b bs)
  show ?case
    using binary_step [of "clock k" b c]
      Cons.IH [of "Suc k" "fst (handleDataChannelMessage (clock k) (Binary b) c)"]
    by (simp add: split_beta Let_def)
qed

lemma receive_transfer:
  "fileChunks (fst (receive_frames clock 0
      (Text (Some (FileInfo name n ftype)) # map Binary bs @ [Text (Some FileComplete)]) c)) = bs
   \<and> receivedSize (fst (receive_frames clock 0
      (Text (Some (FileInfo name n ftype)) # map Binary bs @ [Text (Some FileComplete)]) c))
       = sum_list (map length bs)
   \<and> totalSize (fst (receive_frames clock 0
      (Text (Some (FileInfo name n ftype)) # map Binary bs @ [Text (Some FileComplete)]) c)) = n
   \<and> downloads (snd (receive_frames clock 0
      (Text (Some (FileInfo name n ftype)) # map Binary bs @ [Text (Some FileComplete)]) c))
       = [(name, ftype, concat bs)]"
proof -
  let ?c0 = "fst (handleDataChannelMessage (clock 0) (Text (Some (FileInfo name n ftype))) c)"
  have c0: "fileChunks ?c0 = []" "receivedSize ?c0 = 0" "totalSize ?c0 = n"
    "fileName ?c0 = name" "fileType ?c0 = ftype"
    "snd (handleDataChannelMessage (clock 0) (Text (Some (FileInfo name n ftype))) c) = []"
    by (simp_all add: handleDataChannelMessage_def)
  let ?r1 = "receive_frames clock (Suc 0) (map Binary bs) ?c0"
  note b = receive_binaries [of clock "Suc 0" bs ?c0]
  have fin: "handleDataChannelMessage t (Text (Some FileComplete)) (fst ?r1) =
     ((fst ?r1)\<lparr>status := ''File received successfully!''\<rparr>,
      [Download name ftype (concat bs),
       Toast ''Transfer Complete'' ''File has been received successfully''])" for t
    using b c0 by (simp add: handleDataChannelMessage_def saveReceivedFile_def)
  show ?thesis
    using b c0 fin
    by (simp add: receive_frames_append split_beta Let_def)
qed


text \<open>
  C1. The sender, its data channel open, sends a file; the receiver handles the frames in
  the order they were sent. The binary frames are the file split into 1 MiB chunks; at
  \<^verbatim>\<open>file-complete\<close> the receiver offers for download exactly the file's bytes, under
  the file's name and type; the concatenation of its accumulated chunks is the file, and
  its recorded \<open>totalSize\<close> and its byte counter equal the file's length. This holds for
  every file (so for every file of at most 1 GiB, the ones \<open>handleFileSelect\<close> accepts),
  whatever state the receiver was in before and whatever the clocks read.
\<close>

theorem chunked_transfer_round_trip:
  assumes "dataChannel sender_side = Some Open"
  shows "let frames = sent_frames (snd (sendFile f clock sender_side));
             r = receive_frames clock' 0 frames receiver_side
         in binary_frames frames = chunked (file_bytes f)
          \<and> concat (fileChunks (fst r)) = file_bytes f
          \<and> downloads (snd r) = [(file_name f, file_type f, file_bytes f)]
          \<and> totalSize (fst r) = length (file_bytes f)
          \<and> receivedSize (fst r) = length (file_bytes f)"
proof -
  let ?frames = "Text (Some (FileInfo (file_name f) (file_size f) (file_type f)))
       # map Binary (chunked (file_bytes f)) @ [Text (Some FileComplete)]"
  have fr: "sent_frames (snd (sendFile f clock sender_side)) = ?frames"
    by (rule sendFile_frames [OF assms])
  have bf: "binary_frames ?frames = chunked (file_bytes f)"
    by (simp add: binary_frames_map)
  have sm: "sum_list (map length (chunked (file_bytes f))) = length (file_bytes f)"
    using concat_chunked [of "file_bytes f"] length_concat [of "chunked (file_bytes f)"]
    by simp
  note rt = receive_transfer [of clock' "file_name f" "file_size f" "file_type f"
      "chunked (file_bytes f)" receiver_side]
  show ?thesis
    unfolding Let_def fr
    using bf rt sm by (simp add: concat_chunked file_size_def)
qed

theorem chunked_transfer_round_trip_witness:
  "dataChannel open_sender = Some Open
   \<and> downloads (snd (receive_frames example_clock 0
         (sent_frames (snd (sendFile
            \<lparr>file_name = ''a.txt'', file_type = ''text/plain'', file_bytes = [104, 105, 10]\<rparr>
            example_clock open_sender)))
         initial_client))
       = [(''a.txt'', ''text/plain'', [104, 105, 10])]
   \<and> totalSize (fst (receive_frames example_clock 0
         (sent_frames (snd (sendFile
            \<lparr>file_name = ''a.txt'', file_type = ''text/plain'', file_bytes = [104, 105, 10]\<rparr>
            example_clock open_sender)))
         initial_client)) = 3"
proof -
  have op: "dataChannel open_sender = Some Open"
    by (simp add: open_sender_def)
  show ?thesis
    using op chunked_transfer_round_trip [OF op,
        of "\<lparr>file_name = ''a.txt'', file_type = ''text/plain'', file_bytes = [104, 105, 10]\<rparr>"
           example_clock example_clock initial_client]
    by (simp add: Let_def)
qed

section \<open>Completion on the receiver\<close>

text \<open>
  C5, as the code has it. On \<^verbatim>\<open>file-complete\<close> the receiver offers for download the
  concatenation of the accumulated chunks in receipt order, under the recorded name and
  type, sets the status and shows a toast. The accumulator and the byte counter are left
  as they were; they are cleared by the next \<^verbatim>\<open>file-info\<close>, by a file selection or
  by \<^verbatim>\<open>resetConnection\<close>. So after a transfer of the chunks \<open>bs\<close>, from any state
  of the receiver, the download is the concatenation of \<open>bs\<close> and the accumulator still
  holds \<open>bs\<close>.
\<close>

theorem file_complete_keeps_chunks:
  "handleDataChannelMessage now (Text (Some FileComplete)) c =
     (c\<lparr>status := ''File received successfully!''\<rparr>,
      [Download (fileName c) (fileType c) (concat (fileChunks c)),
       Toast ''Transfer Complete'' ''File has been received successfully''])
   \<and> fileChunks (fst (handleDataChannelMessage now (Text (Some FileComplete)) c)) = fileChunks c
   \<and> receivedSize (fst (handleDataChannelMessage now (Text (Some FileComplete)) c)) = receivedSize c
   \<and> downloads (snd (receive_frames clock 0
        (Text (Some (FileInfo name n ftype)) # map Binary bs @ [Text (Some FileComplete)]) c))
       = [(name, ftype, concat bs)]
   \<and> fileChunks (fst (receive_frames clock 0
        (Text (Some (FileInfo name n ftype)) # map Binary bs @ [Text (Some FileComplete)]) c))
       = bs"
proof -
  have step: "handleDataChannelMessage now (Text (Some FileComplete)) c =
     (c\<lparr>status := ''File received successfully!''\<rparr>,
      [Download (fileName c) (fileType c) (concat (fileChunks c)),
       Toast ''Transfer Complete'' ''File has been received successfully''])"
    by (simp add: handleDataChannelMessage_def saveReceivedFile_def)
  have kept: "fileChunks (fst (handleDataChannelMessage now (Text (Some FileComplete)) c))
      = fileChunks c"
    "receivedSize (fst (handleDataChannelMessage now (Text (Some FileComplete)) c))
      = receivedSize c"
    by (simp_all add: step)
  from step kept receive_transfer [of clock name n ftype bs c] show ?thesis
    by blast
qed

text \<open>
  After a transfer of one three-byte chunk and its \<^verbatim>\<open>file-complete\<close>, the accumulator
  still holds the chunk.
\<close>

theorem file_complete_clears_counterexample:
  "fileChunks (fst (receive_frames example_clock 0
      [Text (Some (FileInfo ''a.txt'' 3 ''text/plain'')), Binary [1, 2, 3],
       Text (Some FileComplete)]
      initial_client)) \<noteq> []"
  by (simp add: handleDataChannelMessage_def saveReceivedFile_def Let_def split_beta
        example_clock_def)

section \<open>The sizes of the binary frames\<close>

lemma sum_frame_lengths: "sum_list (frame_lengths n) = n"
proof -
  have "n div CHUNK_SIZE * CHUNK_SIZE + n mod CHUNK_SIZE = n"
    by simp
  then show ?thesis
    by (cases "n mod CHUNK_SIZE = 0 \<and> 0 < n") (auto simp: frame_lengths_def sum_list_replicate)
qed

lemma full_chunks_pos:
  assumes "n mod CHUNK_SIZE = 0" and "0 < n"
  shows "0 < n div CHUNK_SIZE"
proof -
  have "n div CHUNK_SIZE * CHUNK_SIZE + n mod CHUNK_SIZE = n"
    by simp
  with assms show ?thesis by (cases "n div CHUNK_SIZE") simp_all
qed

lemma frame_lengths_nonempty: "frame_lengths n \<noteq> []"
proof (cases "n mod CHUNK_SIZE = 0 \<and> 0 < n")
  case True
  then have "0 < n div CHUNK_SIZE" by (simp add: full_chunks_pos)
  with True show ?thesis by (simp add: frame_lengths_def)
next
  case False
  then show ?thesis by (auto simp: frame_lengths_def)
qed

lemma frame_lengths_full:
  assumes "i < length (frame_lengths n) - 1"
  shows "frame_lengths n ! i = CHUNK_SIZE"
proof -
  have "i < n div CHUNK_SIZE"
  proof (cases "n mod CHUNK_SIZE = 0 \<and> 0 < n")
    case True
    with assms show ?thesis by (simp add: frame_lengths_def)
  next
    case False
    with assms show ?thesis by (simp add: frame_lengths_def)
  qed
  then show ?thesis
    by (simp add: frame_lengths_def nth_append)
qed

lemma frame_lengths_last: "last (frame_lengths n) \<le> CHUNK_SIZE"
proof (cases "n mod CHUNK_SIZE = 0 \<and> 0 < n")
  case True
  then have "0 < n div CHUNK_SIZE"
    by (simp add: full_chunks_pos)
  then have "replicate (n div CHUNK_SIZE) CHUNK_SIZE \<noteq> []" by simp
  then have "last (replicate (n div CHUNK_SIZE) CHUNK_SIZE) = CHUNK_SIZE"
    by (metis last_replicate length_replicate length_0_conv)
  with True show ?thesis by (simp add: frame_lengths_def)
next
  case False
  then have "frame_lengths n = replicate (n div CHUNK_SIZE) CHUNK_SIZE @ [n mod CHUNK_SIZE]"
    by (simp add: frame_lengths_def)
  then show ?thesis using CHUNK_SIZE_pos by (simp add: less_imp_le)
qed

lemma length_frame_lengths:
  "length (frame_lengths n) =
     (if n = 0 then 1 else nat \<lceil>rat_of_nat n / rat_of_nat CHUNK_SIZE\<rceil>)"
proof (cases "n = 0")
  case True
  then show ?thesis by (simp add: frame_lengths_def)
next
  case False
  have c: "\<lceil>rat_of_nat n / rat_of_nat CHUNK_SIZE\<rceil> = - (- int n div int CHUNK_SIZE)"
    using ceiling_divide_eq_div [of "int n" "int CHUNK_SIZE", where ?'a = rat] by simp
  have nz: "int CHUNK_SIZE \<noteq> 0" using CHUNK_SIZE_pos by simp
  have d: "- int n div int CHUNK_SIZE =
      (if int n mod int CHUNK_SIZE = 0 then - (int n div int CHUNK_SIZE)
       else - (int n div int CHUNK_SIZE) - 1)"
    by (rule zdiv_zminus1_eq_if [OF nz])
  have m: "(int n mod int CHUNK_SIZE = 0) = (n mod CHUNK_SIZE = 0)"
    by (metis of_nat_eq_0_iff zmod_int)
  have q: "int n div int CHUNK_SIZE = int (n div CHUNK_SIZE)"
    by (simp add: zdiv_int)
  show ?thesis
  proof (cases "n mod CHUNK_SIZE = 0")
    case True
    with False show ?thesis by (simp add: c d m q frame_lengths_def)
  next
    case nz: False
    have "nat (1 + int (n div CHUNK_SIZE)) = Suc (n div CHUNK_SIZE)" by linarith
    with False nz show ?thesis by (simp add: c d m q frame_lengths_def)
  qed
qed

lemma frame_lengths_3MiB: "frame_lengths (3 * 1048576) = [1048576, 1048576, 1048576]"
  by (simp add: frame_lengths_def CHUNK_SIZE_def numeral_3_eq_3)

text \<open>
  C3, as the code has it. For a file of \<open>n\<close> bytes every binary frame but the last is
  exactly \<open>CHUNK_SIZE = 1048576\<close> bytes and the last is at most that; the lengths sum to
  \<open>n\<close>; the number of frames is \<open>ceil(n / 1048576)\<close> for a non-empty file and one (a
  single empty frame) for an empty file; a 3 MiB file gives exactly three frames of 1 MiB.
\<close>

theorem frames_are_chunk_sized:
  assumes "dataChannel c = Some Open"
  shows "let chunks = binary_frames (sent_frames (snd (sendFile f clock c)));
             n = file_size f
         in map length chunks = frame_lengths n
          \<and> (\<forall>i < length chunks - 1. length (chunks ! i) = CHUNK_SIZE)
          \<and> length (last chunks) \<le> CHUNK_SIZE
          \<and> sum_list (map length chunks) = n
          \<and> length chunks = (if n = 0 then 1 else nat \<lceil>rat_of_nat n / rat_of_nat CHUNK_SIZE\<rceil>)
          \<and> (n = 3 * 1048576 \<longrightarrow> map length chunks = [1048576, 1048576, 1048576])"
proof -
  let ?chunks = "binary_frames (sent_frames (snd (sendFile f clock c)))"
  have ch: "?chunks = chunked (file_bytes f)"
    using sendFile_frames [OF assms, of f clock] by (simp add: binary_frames_map)
  have ml: "map length ?chunks = frame_lengths (file_size f)"
    by (simp add: ch length_chunked file_size_def)
  have len: "length ?chunks = length (frame_lengths (file_size f))"
    using ml by (metis length_map)
  have ne: "?chunks \<noteq> []"
    using len frame_lengths_nonempty [of "file_size f"] by auto
  have full: "\<forall>i < length ?chunks - 1. length (?chunks ! i) = CHUNK_SIZE"
  proof (intro allI impI)
    fix i assume i: "i < length ?chunks - 1"
    then have "i < length ?chunks" by simp
    then have "length (?chunks ! i) = map length ?chunks ! i" by simp
    also have "\<dots> = frame_lengths (file_size f) ! i" by (simp only: ml)
    also have "\<dots> = CHUNK_SIZE"
      using i len by (simp add: frame_lengths_full)
    finally show "length (?chunks ! i) = CHUNK_SIZE" .
  qed
  have "length (last ?chunks) = last (map length ?chunks)"
    using ne by (simp add: last_map)
  then have lst: "length (last ?chunks) \<le> CHUNK_SIZE"
    using frame_lengths_last [of "file_size f"] by (simp only: ml)
  have sm: "sum_list (map length ?chunks) = file_size f"
    by (simp only: ml sum_frame_lengths)
  have cnt: "length ?chunks =
      (if file_size f = 0 then 1 else nat \<lceil>rat_of_nat (file_size f) / rat_of_nat CHUNK_SIZE\<rceil>)"
    by (simp only: len length_frame_lengths)
  have three: "file_size f = 3 * 1048576 \<longrightarrow> map length ?chunks = [1048576, 1048576, 1048576]"
    using ml frame_lengths_3MiB by simp
  show ?thesis
    unfolding Let_def using ml full lst sm cnt three by blast
qed

theorem frames_are_chunk_sized_witness:
  "dataChannel open_sender = Some Open
   \<and> file_size \<lparr>file_name = ''video.bin'', file_type = [],
                 file_bytes = replicate (3 * 1048576) 0\<rparr> = 3 * 1048576
   \<and> map length (binary_frames (sent_frames (snd (sendFile
        \<lparr>file_name = ''video.bin'', file_type = [], file_bytes = replicate (3 * 1048576) 0\<rparr>
        example_clock open_sender))))
       = [1048576, 1048576, 1048576]"
proof -
  have op: "dataChannel open_sender = Some Open"
    by (simp add: open_sender_def)
  have sz: "file_size \<lparr>file_name = ''video.bin'', file_type = [],
                 file_bytes = replicate (3 * 1048576) 0\<rparr> = 3 * 1048576"
    by (simp add: file_size_def)
  have "file_size \<lparr>file_name = ''video.bin'', file_type = [],
                 file_bytes = replicate (3 * 1048576) 0\<rparr> = 3 * 1048576 \<longrightarrow>
     map length (binary_frames (sent_frames (snd (sendFile
        \<lparr>file_name = ''video.bin'', file_type = [], file_bytes = replicate (3 * 1048576) 0\<rparr>
        example_clock open_sender))))
       = [1048576, 1048576, 1048576]"
    using frames_are_chunk_sized [OF op,
        of "\<lparr>file_name = ''video.bin'', file_type = [], file_bytes = replicate (3 * 1048576) 0\<rparr>"
           example_clock]
    unfolding Let_def by blast
  with op sz show ?thesis by blast
qed

text \<open>
  An empty file is sent as one binary frame of no bytes, not as \<open>ceil(0 / 1048576) = 0\<close>
  frames: \<^verbatim>\<open>sendFile\<close> reads the first slice before it compares the offset with the
  size.
\<close>

theorem empty_file_frame_count_counterexample:
  "length (binary_frames (sent_frames (snd (sendFile empty_file example_clock open_sender)))) = 1
   \<and> nat \<lceil>rat_of_nat (file_size empty_file) / rat_of_nat CHUNK_SIZE\<rceil> = 0"
  by (simp add: sendFile_def reader_loop.simps readSlice_def file_size_def Let_def
        empty_file_def open_sender_def)

section \<open>Rounding to a double\<close>

text \<open>
  Facts about \<open>to_double\<close> used below: in the normal range the rounded value is within
  a relative \<open>2^-53\<close> of the exact one, rounding is monotone, and for a value in
  \<open>[2^e, 2^(e+1))\<close> the result is the exact value scaled to a 53-bit mantissa and rounded
  to the nearest integer, ties to even.
\<close>

lemma min_value_inv_pos: "0 < min_value_inv"
  by (simp add: min_value_inv_def)

lemma rte_int: "round_ties_even (of_int n) = n"
  by (simp add: round_ties_even_def)

lemma rte_bounds: "\<lfloor>x\<rfloor> \<le> round_ties_even x \<and> round_ties_even x \<le> \<lfloor>x\<rfloor> + 1"
  by (simp add: round_ties_even_def Let_def)

lemma rte_mono:
  assumes "x \<le> y"
  shows "round_ties_even x \<le> round_ties_even y"
proof (cases "\<lfloor>x\<rfloor> = \<lfloor>y\<rfloor>")
  case True
  have "x - of_int \<lfloor>x\<rfloor> \<le> y - of_int \<lfloor>y\<rfloor>"
    using assms True by simp
  then show ?thesis
    unfolding round_ties_even_def Let_def True by auto
next
  case False
  have "\<lfloor>x\<rfloor> \<le> \<lfloor>y\<rfloor>" using assms by (rule floor_mono)
  with False have "\<lfloor>x\<rfloor> + 1 \<le> \<lfloor>y\<rfloor>" by simp
  then show ?thesis
    using rte_bounds [of x] rte_bounds [of y] by linarith
qed

lemma rte_err: "\<bar>of_int (round_ties_even x) - x\<bar> \<le> 1 / 2"
proof -
  have f: "of_int \<lfloor>x\<rfloor> \<le> x" "x < of_int \<lfloor>x\<rfloor> + 1"
    by linarith+
  show ?thesis
    unfolding round_ties_even_def Let_def using f by auto
qed


lemma scaled_bits:
  fixes X :: rat
  assumes lo: "2 ^ 52 \<le> X"
  defines "L \<equiv> floorlog 2 (nat \<lfloor>X\<rfloor>)"
  shows "53 \<le> L" and "2 ^ (L - 1) \<le> X" and "X < 2 ^ L"
proof -
  let ?n = "nat \<lfloor>X\<rfloor>"
  have fl: "(2 ^ 52 :: int) \<le> \<lfloor>X\<rfloor>"
    using lo by (simp add: le_floor_iff)
  then have n52: "(2 ^ 52 :: nat) \<le> ?n"
    by (simp add: le_nat_iff)
  then have npos: "0 < ?n"
    by (meson less_le_trans zero_less_numeral zero_less_power)
  show L53: "53 \<le> L"
    unfolding L_def using n52 by (intro floorlog_geI) simp_all
  have b: "2 ^ (L - 1) \<le> ?n" "?n < 2 ^ L"
    unfolding L_def using floorlog_bounds [of ?n 2] npos by simp_all
  have nn: "int ?n = \<lfloor>X\<rfloor>"
    using fl by simp
  have "int (2 ^ (L - 1)) \<le> int ?n"
    using b(1) by (simp only: of_nat_le_iff)
  then have "(2 ^ (L - 1) :: int) \<le> \<lfloor>X\<rfloor>"
    unfolding nn by simp
  then have "of_int (2 ^ (L - 1)) \<le> X"
    by (simp only: le_floor_iff)
  then show "2 ^ (L - 1) \<le> X"
    by simp
  have "int ?n + 1 \<le> int (2 ^ L)"
    using b(2) by linarith
  then have "\<lfloor>X\<rfloor> + 1 \<le> 2 ^ L"
    unfolding nn by simp
  then have "\<lfloor>X\<rfloor> < 2 ^ L" by linarith
  then have "X < of_int (2 ^ L)"
    by (simp only: floor_less_iff)
  then show "X < 2 ^ L"
    by simp
qed

lemma scaled_mantissa:
  fixes X :: rat
  assumes lo: "2 ^ 52 \<le> X"
  defines "s \<equiv> floorlog 2 (nat \<lfloor>X\<rfloor>) - 53"
  shows "2 ^ 52 \<le> X / 2 ^ s" and "X / 2 ^ s < 2 ^ 53"
proof -
  let ?L = "floorlog 2 (nat \<lfloor>X\<rfloor>)"
  note b = scaled_bits [OF lo]
  have L: "?L - 1 = s + 52" "?L = s + 53"
    using b(1) by (simp_all add: s_def)
  have "(2::rat) ^ s * 2 ^ 52 \<le> X"
    using b(2) by (simp add: L power_add)
  then show "2 ^ 52 \<le> X / 2 ^ s"
    by (simp add: pos_le_divide_eq mult.commute)
  have "X < (2::rat) ^ s * 2 ^ 53"
    using b(3) by (simp add: L power_add)
  then show "X / 2 ^ s < 2 ^ 53"
    by (simp add: pos_divide_less_eq mult.commute)
qed

lemma floorlog_scaled:
  fixes X :: rat
  assumes "2 ^ k \<le> X" and "X < 2 ^ Suc k" and "52 \<le> k"
  shows "floorlog 2 (nat \<lfloor>X\<rfloor>) = Suc k"
proof -
  let ?L = "floorlog 2 (nat \<lfloor>X\<rfloor>)"
  have "(2::rat) ^ 52 \<le> 2 ^ k"
    using assms(3) by (intro power_increasing) simp_all
  with assms(1) have lo: "2 ^ 52 \<le> X" by simp
  note b = scaled_bits [OF lo]
  have "(2::rat) ^ (?L - 1) < 2 ^ Suc k"
    using b(2) assms(2) by (rule le_less_trans)
  then have 1: "?L - 1 < Suc k"
    by (simp only: power_strict_increasing_iff [of "2::rat"] one_less_numeral_iff semiring_norm)
  have "(2::rat) ^ k < 2 ^ ?L"
    using assms(1) b(3) by (rule le_less_trans)
  then have 2: "k < ?L"
    by (simp only: power_strict_increasing_iff [of "2::rat"] one_less_numeral_iff semiring_norm)
  from 1 2 show ?thesis by linarith
qed


lemma rounded_pos_char:
  assumes "2 ^ k \<le> x * min_value_inv" and "x * min_value_inv < 2 ^ Suc k" and "52 \<le> k"
  shows "rounded_pos x =
           of_int (round_ties_even (x * min_value_inv / 2 ^ (k - 52))) * 2 ^ (k - 52) / min_value_inv"
  unfolding rounded_pos_def Let_def floorlog_scaled [OF assms]
  using assms(3) by (simp add: Suc_diff_le)

lemma rounded_pos_err:
  assumes lo: "2 ^ 52 \<le> x * min_value_inv"
  shows "\<bar>rounded_pos x - x\<bar> \<le> x / 2 ^ 53"
proof -
  let ?X = "x * min_value_inv"
  let ?s = "floorlog 2 (nat \<lfloor>?X\<rfloor>) - 53"
  let ?z = "?X / 2 ^ ?s"
  let ?m = "rat_of_int (round_ties_even ?z)"
  let ?c = "(2::rat) ^ ?s / min_value_inv"
  have c: "0 < ?c" using min_value_inv_pos by simp
  have z: "2 ^ 52 \<le> ?z" by (rule scaled_mantissa(1) [OF lo])
  have xz: "x = ?z * ?c" using min_value_inv_pos by simp
  have r: "rounded_pos x = ?m * ?c"
    by (simp add: rounded_pos_def Let_def)
  have "\<bar>rounded_pos x - x\<bar> = \<bar>?m - ?z\<bar> * ?c"
  proof -
    have "rounded_pos x - x = (?m - ?z) * ?c"
      unfolding r by (subst (2) xz) (simp only: left_diff_distrib)
    then show ?thesis
      using c by (simp only: abs_mult abs_of_pos)
  qed
  also have "\<dots> \<le> (1 / 2) * ?c"
    using rte_err [of ?z] c by (intro mult_right_mono) simp_all
  also have "\<dots> \<le> (?z / 2 ^ 53) * ?c"
  proof -
    have h: "1 / 2 \<le> t / 2 ^ 53" if "2 ^ 52 \<le> t" for t :: rat
      using that by simp
    from c have "0 \<le> ?c" by (rule less_imp_le)
    with h [OF z] show ?thesis by (rule mult_right_mono)
  qed
  also have "\<dots> = x / 2 ^ 53"
    using min_value_inv_pos by simp
  finally show ?thesis .
qed

lemma scaled_upper:
  fixes X :: rat
  assumes "0 \<le> X"
  shows "X < 2 ^ (floorlog 2 (nat \<lfloor>X\<rfloor>) - 53 + 53)"
proof (cases "2 ^ 52 \<le> X")
  case True
  note b = scaled_bits [OF True]
  from b(1) have "floorlog 2 (nat \<lfloor>X\<rfloor>) - 53 + 53 = floorlog 2 (nat \<lfloor>X\<rfloor>)"
    by simp
  with b(3) show ?thesis by simp
next
  case False
  then have "X < 2 ^ 52" by simp
  also have "(2::rat) ^ 52 \<le> 2 ^ (floorlog 2 (nat \<lfloor>X\<rfloor>) - 53 + 53)"
    by (intro power_increasing) simp_all
  finally show ?thesis .
qed

lemma rounded_pos_mono:
  assumes "0 \<le> x" and "x \<le> y"
  shows "rounded_pos x \<le> rounded_pos y"
proof -
  let ?X = "x * min_value_inv" and ?Y = "y * min_value_inv"
  let ?sx = "floorlog 2 (nat \<lfloor>?X\<rfloor>) - 53" and ?sy = "floorlog 2 (nat \<lfloor>?Y\<rfloor>) - 53"
  have X0: "0 \<le> ?X" using assms(1) min_value_inv_pos by simp
  have XY: "?X \<le> ?Y" using assms(2) min_value_inv_pos by simp
  then have "nat \<lfloor>?X\<rfloor> \<le> nat \<lfloor>?Y\<rfloor>"
    by (intro nat_mono floor_mono)
  then have "floorlog 2 (nat \<lfloor>?X\<rfloor>) \<le> floorlog 2 (nat \<lfloor>?Y\<rfloor>)"
    by (rule floorlog_mono)
  then have s: "?sx \<le> ?sy" by simp
  have "rat_of_int (round_ties_even (?X / 2 ^ ?sx)) * 2 ^ ?sx
      \<le> rat_of_int (round_ties_even (?Y / 2 ^ ?sy)) * 2 ^ ?sy"
  proof (cases "?sx = ?sy")
    case True
    have "?X / 2 ^ ?sy \<le> ?Y / 2 ^ ?sy"
      using XY by (simp add: divide_right_mono)
    then have "round_ties_even (?X / 2 ^ ?sy) \<le> round_ties_even (?Y / 2 ^ ?sy)"
      by (rule rte_mono)
    then show ?thesis
      unfolding True by simp
  next
    case False
    with s have lt: "Suc ?sx \<le> ?sy" by simp
    then have sy0: "0 < ?sy" by simp
    have Ybig: "2 ^ 52 \<le> ?Y"
    proof (rule ccontr)
      assume "\<not> 2 ^ 52 \<le> ?Y"
      then have "?Y < 2 ^ 53" by simp
      then have "\<lfloor>?Y\<rfloor> < 2 ^ 53"
        by (simp add: floor_less_iff)
      then have "nat \<lfloor>?Y\<rfloor> < 2 ^ 53"
      proof -
        have h: "nat w < 2 ^ 53" if "w < 2 ^ 53" for w :: int
          using that by (cases "0 \<le> w") (simp_all add: nat_less_iff)
        assume "\<lfloor>?Y\<rfloor> < 2 ^ 53"
        then show ?thesis by (rule h)
      qed
      then have "floorlog 2 (nat \<lfloor>?Y\<rfloor>) \<le> 53"
        by (intro floorlog_leI) simp_all
      with sy0 show False by simp
    qed
    have "2 ^ 52 \<le> ?Y / 2 ^ ?sy"
      by (rule scaled_mantissa(1) [OF Ybig])
    then have "round_ties_even (2 ^ 52) \<le> round_ties_even (?Y / 2 ^ ?sy)"
      by (rule rte_mono)
    then have my: "(2 ^ 52 :: int) \<le> round_ties_even (?Y / 2 ^ ?sy)"
      using rte_int [of "2 ^ 52"] by simp
    have "?X < 2 ^ (?sx + 53)"
      by (rule scaled_upper [OF X0])
    then have "?X / 2 ^ ?sx < 2 ^ 53"
      by (simp add: pos_divide_less_eq power_add mult.commute)
    then have "round_ties_even (?X / 2 ^ ?sx) \<le> round_ties_even (2 ^ 53)"
      by (intro rte_mono) simp
    then have mx: "round_ties_even (?X / 2 ^ ?sx) \<le> 2 ^ 53"
      using rte_int [of "2 ^ 53"] by simp
    have "rat_of_int (round_ties_even (?X / 2 ^ ?sx)) * 2 ^ ?sx \<le> 2 ^ 53 * 2 ^ ?sx"
      using mx by (intro mult_right_mono) (simp_all flip: of_int_le_iff)
    also have "\<dots> = (2::rat) ^ 52 * 2 ^ Suc ?sx"
      by simp
    also have "\<dots> \<le> 2 ^ 52 * 2 ^ ?sy"
      using lt by (intro mult_left_mono power_increasing) simp_all
    also have "\<dots> \<le> rat_of_int (round_ties_even (?Y / 2 ^ ?sy)) * 2 ^ ?sy"
      using my by (intro mult_right_mono) (simp_all flip: of_int_le_iff)
    finally show ?thesis .
  qed
  then show ?thesis
    unfolding rounded_pos_def Let_def using min_value_inv_pos by (simp add: divide_right_mono)
qed

lemma rounded_pos_nonneg: "0 \<le> x \<Longrightarrow> 0 \<le> rounded_pos x"
proof -
  assume x: "0 \<le> x"
  have "rounded_pos 0 = 0"
    by (simp add: rounded_pos_def round_ties_even_def)
  with rounded_pos_mono [of 0 x] x show ?thesis by simp
qed



lemma to_double_pos_cases:
  assumes "0 \<le> x"
  shows "to_double x = PosInf \<or> (\<exists>r. 0 \<le> r \<and> to_double x = Number r)"
proof (cases "x = 0")
  case True
  then show ?thesis by (simp add: to_double_def)
next
  case False
  with assms have "0 < x" by simp
  then show ?thesis
    using rounded_pos_nonneg [OF assms]
    by (simp add: to_double_def to_double_pos_def)
qed

lemma to_double_mono:
  assumes "0 \<le> x" and "x \<le> y"
  shows "js_le (to_double x) (to_double y)"
proof -
  have y0: "0 \<le> y" using assms by simp
  have z: "rounded_pos 0 = 0"
    by (simp add: rounded_pos_def round_ties_even_def)
  have td: "to_double t = (if 2 ^ 1024 \<le> rounded_pos t then PosInf else Number (rounded_pos t))"
    if "0 \<le> t" for t
    using that z by (cases "t = 0") (simp_all add: to_double_def to_double_pos_def)
  show ?thesis
    unfolding td [OF assms(1)] td [OF y0]
    using rounded_pos_mono [OF assms] by auto
qed

lemma to_double_ge_one:
  assumes "2 ^ e \<le> x" and "x < 2 ^ Suc e" and "e \<le> 1022"
  shows "to_double x = Number (of_int (round_ties_even (x * 2 ^ 52 / 2 ^ e)) * 2 ^ e / 2 ^ 52)"
proof -
  have pos: "0 < x"
    using assms(1) by (rule less_le_trans [rotated]) simp
  have mv: "min_value_inv = 2 ^ 1022 * 2 ^ 52"
    by (simp add: min_value_inv_def)
  have k1: "(2::rat) ^ (1074 + e) = min_value_inv * 2 ^ e"
    by (simp add: power_add min_value_inv_def)
  have lo: "2 ^ (1074 + e) \<le> x * min_value_inv"
    unfolding k1 using assms(1) min_value_inv_pos by (simp add: mult.commute)
  have hi: "x * min_value_inv < 2 ^ Suc (1074 + e)"
  proof -
    have "x * min_value_inv < 2 ^ Suc e * min_value_inv"
      using assms(2) min_value_inv_pos by (rule mult_strict_right_mono)
    also have "\<dots> = 2 ^ Suc (1074 + e)"
      by (simp only: power_Suc k1) (simp add: mult_ac)
    finally show ?thesis .
  qed
  have k: "1074 + e - 52 = 1022 + e" by simp
  have a: "x * min_value_inv / 2 ^ (1022 + e) = x * 2 ^ 52 / 2 ^ e"
    unfolding mv by (simp add: power_add)
  have b: "t * 2 ^ (1022 + e) / min_value_inv = t * 2 ^ e / 2 ^ 52" for t :: rat
    unfolding mv by (simp add: power_add)
  have r: "rounded_pos x = of_int (round_ties_even (x * 2 ^ 52 / 2 ^ e)) * 2 ^ e / 2 ^ 52"
    using rounded_pos_char [OF lo hi] by (simp only: k a b)
  have X: "2 ^ 52 \<le> x * min_value_inv"
  proof -
    have "(2::rat) ^ 52 \<le> 2 ^ (1074 + e)"
      by (intro power_increasing) simp_all
    with lo show ?thesis by simp
  qed
  have "rounded_pos x \<le> x + x / 2 ^ 53"
    using rounded_pos_err [OF X] by linarith
  also have "\<dots> < 2 * x" using pos by simp
  also have "\<dots> < 2 * 2 ^ Suc e" using assms(2) by simp
  also have "\<dots> \<le> 2 * 2 ^ 1023"
    using assms(3) by (intro mult_left_mono power_increasing) simp_all
  finally have "rounded_pos x < 2 ^ 1024" by simp
  then show ?thesis
    using pos r by (simp add: to_double_def to_double_pos_def)
qed

lemma to_double_one: "to_double 1 = Number 1"
  using to_double_ge_one [of 0 1] by (simp add: rte_int [of "2 ^ 52", simplified])

lemma to_double_hundred: "to_double 100 = Number 100"
proof -
  have "round_ties_even (7036874417766400) = 7036874417766400"
    using rte_int [of 7036874417766400] by simp
  then show ?thesis
    using to_double_ge_one [of 6 100] by simp
qed








section \<open>Time remaining\<close>

lemma js_div_number: "b \<noteq> 0 \<Longrightarrow> js_div (Number a) (Number b) = to_double (a / b)"
  by simp















section \<open>Progress\<close>

lemma percent_full: "0 < n \<Longrightarrow> percent n n = Number 100"
  by (simp add: percent_def to_double_one to_double_hundred)

lemma js_le_times_hundred:
  assumes "js_le x y"
    and "x = PosInf \<or> (\<exists>r. 0 \<le> r \<and> x = Number r)"
    and "y = PosInf \<or> (\<exists>r. 0 \<le> r \<and> y = Number r)"
  shows "js_le (js_mul x (Number 100)) (js_mul y (Number 100))"
proof -
  from assms(3) consider "y = PosInf" | s where "0 \<le> s" "y = Number s" by blast
  then show ?thesis
  proof cases
    case 1
    from assms(2) consider "x = PosInf" | r where "0 \<le> r" "x = Number r" by blast
    then show ?thesis
    proof cases
      case 1
      with \<open>y = PosInf\<close> show ?thesis by simp
    next
      case 2
      from to_double_pos_cases [of "r * 100"] 2(1)
      have "to_double (r * 100) = PosInf \<or> (\<exists>q. to_double (r * 100) = Number q)"
        by auto
      with 2 \<open>y = PosInf\<close> show ?thesis by auto
    qed
  next
    case 2
    from assms(2) consider "x = PosInf" | r where "0 \<le> r" "x = Number r" by blast
    then show ?thesis
    proof cases
      case 1
      with 2 assms(1) show ?thesis by simp
    next
      case r: 2
      from assms(1) r 2 have "r \<le> s" by simp
      then have "r * 100 \<le> s * 100" by simp
      moreover have "0 \<le> r * 100" using r(1) by simp
      ultimately have "js_le (to_double (r * 100)) (to_double (s * 100))"
        by (rule to_double_mono [rotated])
      with r 2 show ?thesis by simp
    qed
  qed
qed

lemma percent_mono:
  assumes "0 < n" and "a \<le> b"
  shows "js_le (percent a n) (percent b n)"
proof -
  have le: "(of_nat a :: rat) / of_nat n \<le> of_nat b / of_nat n"
    using assms by (simp add: divide_right_mono)
  have a0: "0 \<le> (of_nat a :: rat) / of_nat n" and b0: "0 \<le> (of_nat b :: rat) / of_nat n"
    by simp_all
  have d: "js_div (Number (of_nat k)) (Number (of_nat n)) = to_double (of_nat k / of_nat n)"
    for k using assms(1) by simp
  show ?thesis
    unfolding percent_def d
    by (rule js_le_times_hundred [OF to_double_mono [OF a0 le]
          to_double_pos_cases [OF a0] to_double_pos_cases [OF b0]])
qed

lemma progress_after_chunk:
  "progress (fst (handleDataChannelMessage now (Binary chunk) c)) =
     percent (receivedSize c + length chunk) (totalSize c)"
  by (simp add: handleDataChannelMessage_def Let_def)

lemma progress_after_onload:
  "progress (snd (onload_update f now chunk offset c)) =
     percent (offset + length chunk) (file_size f)"
  by (simp add: onload_update_def Let_def)

lemma reader_loop_more:
  assumes "dataChannel c \<noteq> None" and "offset + length (readSlice f offset) < file_size f"
  shows "reader_loop f clock k offset c =
     (fst (reader_loop f clock (Suc k) (offset + length (readSlice f offset))
             (snd (onload_update f (clock k) (readSlice f offset) offset c))),
      Send (Binary (readSlice f offset)) #
      snd (reader_loop f clock (Suc k) (offset + length (readSlice f offset))
             (snd (onload_update f (clock k) (readSlice f offset) offset c))))"
  by (subst reader_loop.simps) (simp only: assms if_False if_True Let_def)

lemma reader_loop_last:
  assumes "dataChannel c \<noteq> None" and "\<not> offset + length (readSlice f offset) < file_size f"
  shows "reader_loop f clock k offset c =
     ((snd (onload_update f (clock k) (readSlice f offset) offset c))
           \<lparr>status := ''File sent successfully!''\<rparr>,
         [Send (Binary (readSlice f offset)), Send (Text (Some FileComplete)),
          Toast ''Transfer Complete'' ''File has been sent successfully''])"
  by (subst reader_loop.simps) (simp only: assms if_False if_True Let_def)

lemma reader_loop_progress:
  "dataChannel c \<noteq> None \<Longrightarrow> offset \<le> file_size f \<Longrightarrow>
   progress (fst (reader_loop f clock k offset c)) = percent (file_size f) (file_size f)"
proof (induction f clock k offset c rule: reader_loop.induct)
  case (1 f clock k offset c)
  show ?case
  proof (cases "offset + length (readSlice f offset) < file_size f")
    case True
    have dc: "dataChannel (snd (onload_update f (clock k) (readSlice f offset) offset c)) \<noteq> None"
      using "1.prems"(1) by (simp add: dataChannel_onload_update)
    have le: "offset + length (readSlice f offset) \<le> file_size f"
      using True by simp
    show ?thesis
      using "1.IH" [OF "1.prems"(1) True dc le]
      by (simp add: reader_loop_more [OF "1.prems"(1) True])
  next
    case False
    have "length (readSlice f offset) \<le> file_size f - offset"
      by (simp add: length_readSlice)
    with False "1.prems"(2) have "offset + length (readSlice f offset) = file_size f"
      by simp
    then show ?thesis
      by (simp add: reader_loop_last [OF "1.prems"(1) False] progress_after_onload)
  qed
qed

lemma sender_final_progress:
  assumes "dataChannel c = Some Open" and "0 < file_size f"
  shows "progress (fst (sendFile f clock c)) = Number 100"
  using assms reader_loop_progress [of "c\<lparr>startTime := clock 0\<rparr>" 0 f clock 1]
  by (simp add: sendFile_def Let_def percent_full)

lemma receive_binaries_progress:
  "bs \<noteq> [] \<Longrightarrow>
   progress (fst (receive_frames clock k (map Binary bs) c)) =
     percent (receivedSize c + sum_list (map length bs)) (totalSize c)"
proof (induction bs arbitrary: k c)
  case Nil
  then show ?case by simp
next
  case (Cons b bs)
  let ?c1 = "fst (handleDataChannelMessage (clock k) (Binary b) c)"
  note st = binary_step [of "clock k" b c]
  show ?case
  proof (cases "bs = []")
    case True
    then show ?thesis
      by (simp add: split_beta Let_def progress_after_chunk)
  next
    case False
    from Cons.IH [OF False, of "Suc k" ?c1] st show ?thesis
      by (simp add: split_beta Let_def add.assoc)
  qed
qed

lemma receiver_final_progress:
  assumes "dataChannel sender_side = Some Open" and "0 < file_size f"
  shows "progress (fst (receive_frames clock' 0
            (sent_frames (snd (sendFile f clock sender_side))) receiver_side)) = Number 100"
proof -
  let ?bs = "chunked (file_bytes f)"
  let ?c0 = "fst (handleDataChannelMessage (clock' 0)
                (Text (Some (FileInfo (file_name f) (file_size f) (file_type f)))) receiver_side)"
  have c0: "receivedSize ?c0 = 0" "totalSize ?c0 = file_size f"
    by (simp_all add: handleDataChannelMessage_def)
  have ne: "?bs \<noteq> []"
    using frame_lengths_nonempty [of "length (file_bytes f)"] length_chunked [of "file_bytes f"]
    by auto
  have sm: "sum_list (map length ?bs) = file_size f"
    using concat_chunked [of "file_bytes f"] length_concat [of ?bs]
    by (simp add: file_size_def)
  have p: "progress (fst (receive_frames clock' (Suc 0) (map Binary ?bs) ?c0)) = Number 100"
    using receive_binaries_progress [OF ne, of clock' "Suc 0" ?c0] c0 sm assms(2)
    by (simp add: percent_full)
  have fin: "progress (fst (handleDataChannelMessage t (Text (Some FileComplete)) c)) = progress c"
    for t c
    by (simp add: handleDataChannelMessage_def saveReceivedFile_def)
  show ?thesis
    using p fin
    by (simp add: sendFile_frames [OF assms(1)] receive_frames_append split_beta Let_def)
qed

text \<open>
  C4, at an empty file. For a file of at least one byte the percentage never decreases
  from one chunk to the next (\<open>percent_mono\<close> with \<open>progress_after_chunk\<close> and
  \<open>progress_after_onload\<close>) and is exactly 100 when \<^verbatim>\<open>file-complete\<close> is sent and
  when it is received (\<open>sender_final_progress\<close>, \<open>receiver_final_progress\<close>). For a
  file of no bytes the sender sends one empty chunk, and both sides compute
  \<^verbatim>\<open>0 / 0 * 100\<close>: the progress at \<^verbatim>\<open>file-complete\<close> is \<^verbatim>\<open>NaN\<close>, not 100.
\<close>

theorem empty_file_progress_not_100:
  "sent_frames (snd (sendFile empty_file example_clock open_sender)) =
     [Text (Some (FileInfo ''empty.txt'' 0 ''text/plain'')), Binary [], Text (Some FileComplete)]
   \<and> progress (fst (sendFile empty_file example_clock open_sender)) = NaN
   \<and> progress (fst (sendFile empty_file example_clock open_sender)) \<noteq> Number 100
   \<and> progress (fst (receive_frames example_clock 0
        (sent_frames (snd (sendFile empty_file example_clock open_sender))) initial_client)) = NaN
   \<and> progress (fst (receive_frames example_clock 0
        (sent_frames (snd (sendFile empty_file example_clock open_sender))) initial_client))
       \<noteq> Number 100"
  by (simp add: sendFile_def reader_loop.simps readSlice_def file_size_def Let_def
        onload_update_def percent_def handleDataChannelMessage_def saveReceivedFile_def
        initial_client_def split_beta empty_file_def open_sender_def example_clock_def)

end
